theory Spec2Isabelle
  imports Complex_Main "HOL-Library.Sublist" "HOL-Library.Code_Target_Numeral"
begin

section \<open>Characters and strings\<close>

text \<open>
  Python's \<open>str\<close> is modelled by \<open>string\<close>; a \<open>char\<close> stands for a code point below 256.
  The character classes are those of Python's \<open>re\<close> module on \<open>str\<close> patterns, cut down
  to that range: \<open>\d\<close> is the ten decimal digits, \<open>\s\<close> is what \<open>str.isspace\<close> accepts
  (tab to carriage return, the four separators 28 to 31, the blank, NEL and the
  no-break space), and \<open>.\<close> is every character but the line feed.
\<close>

definition is_digit :: "char \<Rightarrow> bool" where
  "is_digit c = (c \<in> set ''0123456789'')"

definition is_space :: "char \<Rightarrow> bool" where
  "is_space c =
     (let n = (of_char c :: nat)
      in (9 \<le> n \<and> n \<le> 13) \<or> (28 \<le> n \<and> n \<le> 32) \<or> n = 133 \<or> n = 160)"

definition newline :: char where
  "newline = CHR 0x0A"

text \<open>\<open>str.lower\<close>: the letters A to Z and the capital letters of Latin-1 move up by 32.\<close>

definition lower_char :: "char \<Rightarrow> char" where
  "lower_char c =
     (let n = (of_char c :: nat)
      in if (65 \<le> n \<and> n \<le> 90) \<or> (192 \<le> n \<and> n \<le> 222 \<and> n \<noteq> 215)
         then char_of (n + 32) else c)"

definition lower :: "string \<Rightarrow> string" where
  "lower s = map lower_char s"

text \<open>
  \<open>float(s)\<close> for the only strings the parser hands to it, those matched by
  \<open>\d+\.?\d*\<close>. The result is a double: the decimal \<open>p / q\<close> rounded to the nearest
  number with 53 significant bits, ties to the even one, with the exponent kept at or
  above the one of the subnormal numbers, and infinity from \<open>2 ^ 1024\<close> on. Neither a
  sign nor a NaN arises from such strings.
\<close>

datatype pyfloat = Finite real | Infinite

definition digit_val :: "char \<Rightarrow> nat" where
  "digit_val c = of_char c - 48"

definition nat_of_digits :: "string \<Rightarrow> nat" where
  "nat_of_digits ds = foldl (\<lambda>a c. 10 * a + digit_val c) 0 ds"

definition round_half_even :: "nat \<Rightarrow> nat \<Rightarrow> nat" where
  "round_half_even n d =
     (let q = n div d; r = n mod d
      in if 2 * r < d then q else if d < 2 * r then q + 1
         else if even q then q else q + 1)"

fun bit_length :: "nat \<Rightarrow> nat" where
  "bit_length n = (if n = 0 then 0 else Suc (bit_length (n div 2)))"

declare bit_length.simps [simp del]

text \<open>The exponent \<open>e\<close> with \<open>2 ^ e \<le> p / q < 2 ^ (e + 1)\<close>, for positive \<open>p\<close> and \<open>q\<close>.\<close>

definition floor_log2 :: "nat \<Rightarrow> nat \<Rightarrow> int" where
  "floor_log2 p q =
     (let e0 = int (bit_length p) - int (bit_length q)
      in if (if 0 \<le> e0 then q * 2 ^ nat e0 \<le> p else q \<le> p * 2 ^ nat (- e0))
         then e0 else e0 - 1)"

definition to_double :: "nat \<Rightarrow> nat \<Rightarrow> pyfloat" where
  "to_double p q =
     (if p = 0 then Finite 0
      else
        (let s = max (floor_log2 p q) (- 1022) - 52
         in if 0 \<le> s then
              (let m = round_half_even p (q * 2 ^ nat s)
               in if 2 ^ 1024 \<le> m * 2 ^ nat s then Infinite
                  else Finite (real (m * 2 ^ nat s)))
            else Finite (real (round_half_even (p * 2 ^ nat (- s)) q) / 2 ^ nat (- s))))"

definition py_float :: "string \<Rightarrow> pyfloat" where
  "py_float s =
     (let ip = takeWhile is_digit s; fp = drop (Suc (length ip)) s
      in to_double (nat_of_digits (ip @ fp)) (10 ^ length fp))"

section \<open>Strategy A: the log line parser\<close>

text \<open>
  \<open>re.search(r'AppID (\d+).*?(\d+\.?\d*)\s*MB/s', line)\<close>, as the backtracking matcher
  runs it. Each function matches a suffix of the pattern at the head of its argument
  and tries the alternatives in the matcher's order: a greedy repetition takes one
  more character first and gives it back on failure, the lazy \<open>.*?\<close> tries the rest
  of the pattern first and takes one more character on failure.
\<close>

text \<open>\<open>\s*MB/s\<close>\<close>

fun match_unit :: "string \<Rightarrow> bool" where
  "match_unit [] = False"
| "match_unit (c # cs) =
     (if is_space c then match_unit cs \<or> prefix ''MB/s'' (c # cs)
      else prefix ''MB/s'' (c # cs))"

text \<open>\<open>\d*\s*MB/s\<close>, returning what \<open>\d*\<close> took.\<close>

fun match_frac :: "string \<Rightarrow> string option" where
  "match_frac [] = None"
| "match_frac (c # cs) =
     (if is_digit c then
        (case match_frac cs of
           Some r \<Rightarrow> Some (c # r)
         | None \<Rightarrow> if match_unit (c # cs) then Some [] else None)
      else if match_unit (c # cs) then Some [] else None)"

text \<open>\<open>\.?\d*\s*MB/s\<close>, returning what \<open>\.?\d*\<close> took.\<close>

fun match_dot :: "string \<Rightarrow> string option" where
  "match_dot [] = None"
| "match_dot (c # cs) =
     (if c = CHR ''.'' then
        (case match_frac cs of
           Some r \<Rightarrow> Some (c # r)
         | None \<Rightarrow> match_frac (c # cs))
      else match_frac (c # cs))"

text \<open>\<open>(\d+\.?\d*)\s*MB/s\<close>, returning the group.\<close>

fun match_num :: "string \<Rightarrow> string option" where
  "match_num [] = None"
| "match_num (c # cs) =
     (if is_digit c then
        (case match_num cs of
           Some r \<Rightarrow> Some (c # r)
         | None \<Rightarrow> map_option ((#) c) (match_dot cs))
      else None)"

text \<open>\<open>.*?(\d+\.?\d*)\s*MB/s\<close>, returning the group.\<close>

fun match_lazy :: "string \<Rightarrow> string option" where
  "match_lazy [] = None"
| "match_lazy (c # cs) =
     (case match_num (c # cs) of
        Some r \<Rightarrow> Some r
      | None \<Rightarrow> if c = newline then None else match_lazy cs)"

text \<open>\<open>(\d+).*?(\d+\.?\d*)\s*MB/s\<close>, returning both groups.\<close>

fun match_id :: "string \<Rightarrow> (string \<times> string) option" where
  "match_id [] = None"
| "match_id (c # cs) =
     (if is_digit c then
        (case match_id cs of
           Some (a, r) \<Rightarrow> Some (c # a, r)
         | None \<Rightarrow> map_option (Pair [c]) (match_lazy cs))
      else None)"

text \<open>The whole pattern at the head of the string, then at the leftmost position.\<close>

definition match_speed_here :: "string \<Rightarrow> (string \<times> string) option" where
  "match_speed_here s = (if prefix ''AppID '' s then match_id (drop 6 s) else None)"

fun search_speed :: "string \<Rightarrow> (string \<times> string) option" where
  "search_speed [] = None"
| "search_speed (c # cs) =
     (case match_speed_here (c # cs) of
        Some g \<Rightarrow> Some g
      | None \<Rightarrow> search_speed cs)"

text \<open>\<open>re.search(r'AppID (\d+)', line)\<close>: the longest run of digits is the group.\<close>

definition match_app_here :: "string \<Rightarrow> string option" where
  "match_app_here s =
     (if prefix ''AppID '' s \<and> takeWhile is_digit (drop 6 s) \<noteq> []
      then Some (takeWhile is_digit (drop 6 s)) else None)"

fun search_app :: "string \<Rightarrow> string option" where
  "search_app [] = None"
| "search_app (c # cs) =
     (case match_app_here (c # cs) of
        Some a \<Rightarrow> Some a
      | None \<Rightarrow> search_app cs)"

text \<open>\<open>'paused' in line.lower() or 'suspended' in line.lower()\<close>\<close>

definition has_pause_word :: "string \<Rightarrow> bool" where
  "has_pause_word line =
     (sublist ''paused'' (lower line) \<or> sublist ''suspended'' (lower line))"

text \<open>\<open>SteamDownloadMonitor._parse_log_line\<close>: \<open>(app_id, speed_mbps, status)\<close> or \<open>None\<close>.\<close>

definition parse_log_line :: "string \<Rightarrow> (string \<times> pyfloat \<times> string) option" where
  "parse_log_line line =
     (case search_speed line of
        Some (app_id, num) \<Rightarrow>
          Some (app_id, py_float num,
                if has_pause_word line then ''paused'' else ''downloading'')
      | None \<Rightarrow>
          if has_pause_word line then
            (case search_app line of
               Some app_id \<Rightarrow> Some (app_id, Finite 0, ''paused'')
             | None \<Rightarrow> None)
          else None)"

section \<open>The file system the monitors observe\<close>

text \<open>
  A tree of directories. A file carries its content and its modification time (seconds
  since the epoch); \<open>Blob n\<close> is a file of \<open>n\<close> bytes that cannot be opened or decoded
  as text, so \<open>open\<close> or \<open>read\<close> raises on it. \<open>Broken\<close> is a dangling symbolic link:
  a directory listing shows it, \<open>os.path.exists\<close> denies it. Paths are the strings the
  program builds; they are cut at both separators and followed from the root, and the
  empty path names nothing. Letter case and \<open>..\<close> are taken literally.
\<close>

datatype content = Data string | Blob nat

datatype node = File content real | Dir "(string \<times> node) list" | Broken

datatype py_error = OSError | TypeError | ValueError

definition backslash :: char where
  "backslash = CHR 0x5C"

definition is_sep :: "char \<Rightarrow> bool" where
  "is_sep c = (c = backslash \<or> c = CHR ''/'')"

fun split_acc :: "string \<Rightarrow> string \<Rightarrow> string list" where
  "split_acc acc [] = (if acc = [] then [] else [acc])"
| "split_acc acc (c # cs) =
     (if is_sep c then (if acc = [] then split_acc [] cs else acc # split_acc [] cs)
      else split_acc (acc @ [c]) cs)"

definition split_path :: "string \<Rightarrow> string list" where
  "split_path path = split_acc [] path"

fun lookup :: "node \<Rightarrow> string list \<Rightarrow> node option" where
  "lookup n [] = Some n"
| "lookup (Dir es) (p # ps) =
     (case map_of es p of None \<Rightarrow> None | Some n \<Rightarrow> lookup n ps)"
| "lookup _ (p # ps) = None"

definition resolve :: "node \<Rightarrow> string \<Rightarrow> node option" where
  "resolve fs path = (if path = [] then None else lookup fs (split_path path))"

text \<open>
  \<open>os.path.join\<close> on Windows for a second argument that is a plain relative name,
  which is all the program joins.
\<close>

definition path_join :: "string \<Rightarrow> string \<Rightarrow> string" where
  "path_join a b =
     (if a = [] \<or> is_sep (last a) \<or> last a = CHR '':'' then a @ b
      else a @ [backslash] @ b)"

definition path_exists :: "node \<Rightarrow> string \<Rightarrow> bool" where
  "path_exists fs path =
     (case resolve fs path of None \<Rightarrow> False | Some Broken \<Rightarrow> False | Some _ \<Rightarrow> True)"

text \<open>\<open>open(path, 'r', encoding='utf-8').read()\<close>\<close>

definition read_text :: "node \<Rightarrow> string \<Rightarrow> py_error + string" where
  "read_text fs path =
     (case resolve fs path of
        Some (File (Data s) t) \<Rightarrow> Inr s
      | _ \<Rightarrow> Inl OSError)"

definition listdir :: "node \<Rightarrow> string \<Rightarrow> py_error + string list" where
  "listdir fs path =
     (case resolve fs path of
        Some (Dir es) \<Rightarrow> Inr (map fst es)
      | _ \<Rightarrow> Inl OSError)"

definition is_dir :: "node \<Rightarrow> bool" where
  "is_dir n = (case n of Dir es \<Rightarrow> True | _ \<Rightarrow> False)"

text \<open>
  The entries that \<open>os.walk(top)\<close> reports in its \<open>files\<close> lists, top-down. A top that
  is not a directory yields nothing.
\<close>

fun walk_files :: "node \<Rightarrow> node list"
  and walk_subdirs :: "(string \<times> node) list \<Rightarrow> node list" where
  "walk_files (Dir es) = filter (\<lambda>n. \<not> is_dir n) (map snd es) @ walk_subdirs es"
| "walk_files (File c t) = []"
| "walk_files Broken = []"
| "walk_subdirs [] = []"
| "walk_subdirs (e # es) = (if is_dir (snd e) then walk_files (snd e) else []) @ walk_subdirs es"

text \<open>\<open>os.path.exists\<close>, \<open>os.path.getsize\<close> and \<open>os.path.getmtime\<close> of a walked entry.\<close>

definition node_exists :: "node \<Rightarrow> bool" where
  "node_exists n = (n \<noteq> Broken)"

definition getsize :: "node \<Rightarrow> int" where
  "getsize n =
     (case n of File (Data s) t \<Rightarrow> int (length s) | File (Blob k) t \<Rightarrow> int k | _ \<Rightarrow> 0)"

definition getmtime :: "node \<Rightarrow> real" where
  "getmtime n = (case n of File c t \<Rightarrow> t | _ \<Rightarrow> 0)"

section \<open>Manifest patterns\<close>

text \<open>
  The three patterns \<open>"path"\s+"([^"]+)"\<close>, \<open>"name"\s+"([^"]+)"\<close> and
  \<open>"StateFlags"\s+"(\d+)"\<close> have one form: a quoted key, white space, a quoted value
  of one character class. The closing quote is outside both classes, so each greedy
  repetition can only succeed at its full length. \<open>kv_here\<close> matches at the head of the
  string and returns the group and the length of the match.
\<close>

definition quote :: char where
  "quote = CHR 0x22"

definition not_quote :: "char \<Rightarrow> bool" where
  "not_quote c = (c \<noteq> quote)"

definition kv_here :: "string \<Rightarrow> (char \<Rightarrow> bool) \<Rightarrow> string \<Rightarrow> (string \<times> nat) option" where
  "kv_here key cls s =
     (let q = [quote] @ key @ [quote];
          r = drop (length q) s;
          ws = takeWhile is_space r;
          r1 = dropWhile is_space r;
          v = takeWhile cls (tl r1);
          r2 = dropWhile cls (tl r1)
      in if prefix q s \<and> ws \<noteq> [] \<and> r1 \<noteq> [] \<and> hd r1 = quote \<and> v \<noteq> []
            \<and> r2 \<noteq> [] \<and> hd r2 = quote
         then Some (v, length q + length ws + 1 + length v + 1)
         else None)"

text \<open>\<open>re.search\<close>: the leftmost match.\<close>

fun kv_search :: "string \<Rightarrow> (char \<Rightarrow> bool) \<Rightarrow> string \<Rightarrow> string option" where
  "kv_search key cls [] = None"
| "kv_search key cls (c # cs) =
     (case kv_here key cls (c # cs) of
        Some (v, n) \<Rightarrow> Some v
      | None \<Rightarrow> kv_search key cls cs)"

text \<open>
  \<open>re.findall\<close>: the matches from left to right, none overlapping. The counter is the
  number of characters still covered by the last match.
\<close>

fun kv_findall :: "string \<Rightarrow> (char \<Rightarrow> bool) \<Rightarrow> nat \<Rightarrow> string \<Rightarrow> string list" where
  "kv_findall key cls k [] = []"
| "kv_findall key cls (Suc k) (c # cs) = kv_findall key cls k cs"
| "kv_findall key cls 0 (c # cs) =
     (case kv_here key cls (c # cs) of
        Some (v, n) \<Rightarrow> v # kv_findall key cls (n - 1) cs
      | None \<Rightarrow> kv_findall key cls 0 cs)"

text \<open>\<open>s.replace(old, '')\<close> and \<open>path.replace('\\\\', '\\')\<close>\<close>

fun remove_all :: "string \<Rightarrow> string \<Rightarrow> string" where
  "remove_all old [] = []"
| "remove_all old (c # cs) =
     (if old \<noteq> [] \<and> prefix old (c # cs) then remove_all old (drop (length old - 1) cs)
      else c # remove_all old cs)"

fun undouble :: "string \<Rightarrow> string" where
  "undouble (c # d # cs) =
     (if c = backslash \<and> d = backslash then backslash # undouble cs
      else c # undouble (d # cs))"
| "undouble cs = cs"

section \<open>Library folders and names\<close>

text \<open>
  Python's truth value of \<open>self.steam_path\<close>: \<open>None\<close> and the empty string are false.
\<close>

definition truthy :: "string option \<Rightarrow> bool" where
  "truthy p = (case p of None \<Rightarrow> False | Some s \<Rightarrow> s \<noteq> [])"

text \<open>
  \<open>_find_steam_path\<close>: the three registry reads in order, each a value or a failure;
  the first non-empty value that exists on disk wins.
\<close>

fun find_steam_path :: "node \<Rightarrow> string option list \<Rightarrow> string option" where
  "find_steam_path fs [] = None"
| "find_steam_path fs (None # rs) = find_steam_path fs rs"
| "find_steam_path fs (Some p # rs) =
     (if p \<noteq> [] \<and> path_exists fs p then Some p else find_steam_path fs rs)"

text \<open>
  The list both classes build from \<open>libraryfolders.vdf\<close>: the install root's own
  \<open>steamapps\<close> first, then every declared library whose \<open>steamapps\<close> exists. A file that
  cannot be read adds nothing.
\<close>

definition library_folders :: "string \<Rightarrow> node \<Rightarrow> string list" where
  "library_folders sp fs =
     (let library_vdf = path_join (path_join sp ''steamapps'') ''libraryfolders.vdf''
      in path_join sp ''steamapps'' #
         (if path_exists fs library_vdf then
            (case read_text fs library_vdf of
               Inl e \<Rightarrow> []
             | Inr content \<Rightarrow>
                 filter (path_exists fs)
                   (map (\<lambda>path. path_join (undouble path) ''steamapps'')
                      (kv_findall ''path'' not_quote 0 content)))
          else []))"

definition fallback_name :: "string \<Rightarrow> string" where
  "fallback_name app_id = ''AppID '' @ app_id"

fun search_manifests :: "node \<Rightarrow> string list \<Rightarrow> string \<Rightarrow> string option" where
  "search_manifests fs [] app_id = None"
| "search_manifests fs (folder # folders) app_id =
     (let manifest_file = path_join folder (''appmanifest_'' @ app_id @ ''.acf'')
      in if path_exists fs manifest_file then
           (case read_text fs manifest_file of
              Inl e \<Rightarrow> search_manifests fs folders app_id
            | Inr content \<Rightarrow>
                (case kv_search ''name'' not_quote content of
                   Some name \<Rightarrow> Some name
                 | None \<Rightarrow> search_manifests fs folders app_id))
         else search_manifests fs folders app_id)"

text \<open>\<open>_get_app_name\<close>, the same in both classes.\<close>

definition get_app_name :: "string option \<Rightarrow> node \<Rightarrow> string \<Rightarrow> string" where
  "get_app_name steam fs app_id =
     (case steam of
        None \<Rightarrow> fallback_name app_id
      | Some sp \<Rightarrow>
          if sp = [] then fallback_name app_id
          else (case search_manifests fs (library_folders sp fs) app_id of
                  Some name \<Rightarrow> name
                | None \<Rightarrow> fallback_name app_id))"

section \<open>Strategy A: the log cursor\<close>

record steam_monitor =
  steam_path :: "string option"

record download_monitor = steam_monitor +
  log_path :: "string option"
  last_position :: nat

text \<open>\<open>SteamDownloadMonitor.__init__\<close>, given what \<open>_find_steam_path\<close> returned.\<close>

definition init_monitor :: "string option \<Rightarrow> download_monitor" where
  "init_monitor found =
     \<lparr> steam_path = found,
       log_path = (case found of
                     None \<Rightarrow> None
                   | Some sp \<Rightarrow>
                       if sp = [] then None
                       else Some (path_join (path_join sp ''logs'') ''content_log.txt'')),
       last_position = 0 \<rparr>"

text \<open>
  The text layer of the log file. The log is taken as single-byte text, so a position
  counts characters; the decoder's dropping of undecodable bytes is left out. Universal
  newlines turn \<open>\r\n\<close> and \<open>\r\<close> into \<open>\n\<close>; \<open>readlines\<close> cuts after every \<open>\n\<close> and
  keeps it.
\<close>

definition carriage_return :: char where
  "carriage_return = CHR 0x0D"

fun universal_newlines :: "string \<Rightarrow> string" where
  "universal_newlines (c # d # cs) =
     (if c = carriage_return \<and> d = newline then newline # universal_newlines cs
      else if c = carriage_return then newline # universal_newlines (d # cs)
      else c # universal_newlines (d # cs))"
| "universal_newlines [c] = (if c = carriage_return then [newline] else [c])"
| "universal_newlines [] = []"

fun splitlines :: "string \<Rightarrow> string list" where
  "splitlines [] = []"
| "splitlines (c # cs) =
     (if c = newline then [c] # splitlines cs
      else (case splitlines cs of
              [] \<Rightarrow> [[c]]
            | l # ls \<Rightarrow> (c # l) # ls))"

definition readlines :: "string \<Rightarrow> string list" where
  "readlines bytes = splitlines (universal_newlines bytes)"

text \<open>
  \<open>_read_new_log_entries\<close>. \<open>seek\<close> accepts a position past the end of the file; nothing
  is read from there and \<open>tell\<close> gives the same position back. A failure of \<open>open\<close> is
  caught: no entries, cursor untouched.
\<close>

definition read_new_log_entries :: "download_monitor \<Rightarrow> node \<Rightarrow> string list \<times> download_monitor" where
  "read_new_log_entries m fs =
     (case log_path m of
        None \<Rightarrow> ([], m)
      | Some lp \<Rightarrow>
          if lp = [] \<or> \<not> path_exists fs lp then ([], m)
          else (case read_text fs lp of
                  Inl e \<Rightarrow> ([], m)
                | Inr bytes \<Rightarrow>
                    (readlines (drop (last_position m) bytes),
                     m\<lparr>last_position := max (last_position m) (length bytes)\<rparr>)))"

text \<open>
  The dictionaries the two strategies return. Strategy A carries the double the parser
  read; Strategy B carries the rate it computed.
\<close>

record 's download =
  app_id :: string
  game_name :: string
  speed_mbps :: 's
  status :: string

record 's status_info = "'s download" +
  timestamp :: real

text \<open>The first line of the list that parses, with what it parsed to.\<close>

fun first_parsed :: "string list \<Rightarrow> (string \<times> pyfloat \<times> string) option" where
  "first_parsed [] = None"
| "first_parsed (line # ls) =
     (case parse_log_line line of
        Some r \<Rightarrow> Some r
      | None \<Rightarrow> first_parsed ls)"

text \<open>\<open>get_current_download_status\<close>; \<open>now\<close> is what \<open>datetime.now()\<close> reads.\<close>

definition get_current_download_status ::
    "download_monitor \<Rightarrow> node \<Rightarrow> real \<Rightarrow> pyfloat status_info option \<times> download_monitor" where
  "get_current_download_status m fs now =
     (let (entries, m') = read_new_log_entries m fs
      in (case first_parsed (rev entries) of
            None \<Rightarrow> None
          | Some (a, speed, st) \<Rightarrow>
              Some \<lparr> app_id = a, game_name = get_app_name (steam_path m') fs a,
                     speed_mbps = speed, status = st, timestamp = now \<rparr>,
          m'))"

section \<open>Strategy B: size samples, discovery, activity\<close>

text \<open>
  \<open>download_stats\<close> is a Python value. The constructor stores a list in it; the
  estimator treats it as a dictionary from identifier to \<open>(size, time)\<close>.
\<close>

datatype stats = PyList "string list" | PyDict "string \<rightharpoonup> (int \<times> real)"

record download_monitor_v2 = steam_monitor +
  download_stats :: stats

text \<open>\<open>SteamDownloadMonitorV2.__init__\<close>: \<open>self.download_stats = []\<close>.\<close>

definition init_monitor_v2 :: "string option \<Rightarrow> download_monitor_v2" where
  "init_monitor_v2 found = \<lparr> steam_path = found, download_stats = PyList [] \<rparr>"

text \<open>The sum of the sizes over \<open>os.walk\<close>, and the latest modification time, from 0.\<close>

definition total_size :: "node \<Rightarrow> int" where
  "total_size tree =
     foldl (\<lambda>acc f. if node_exists f then acc + getsize f else acc) 0 (walk_files tree)"

definition latest_mtime :: "node \<Rightarrow> real" where
  "latest_mtime tree =
     foldl (\<lambda>acc f. if node_exists f then max acc (getmtime f) else acc) 0 (walk_files tree)"

text \<open>
  The statements of \<open>_estimate_download_speed\<close> after the size is known, with the
  exception they may raise. On a list, \<open>app_id in self.download_stats\<close> compares the
  elements; reading or storing at a string index raises \<open>TypeError\<close>.
\<close>

definition update_stats :: "stats \<Rightarrow> string \<Rightarrow> int \<Rightarrow> real \<Rightarrow> py_error + (real \<times> stats)" where
  "update_stats st a size_now current_time =
     (case st of
        PyList xs \<Rightarrow> (if a \<in> set xs then Inl TypeError else Inl TypeError)
      | PyDict d \<Rightarrow>
          (case d a of
             Some (last_size, last_time) \<Rightarrow>
               (let time_diff = current_time - last_time
                in if time_diff > 0 then
                     (let size_diff = size_now - last_size;
                          speed_bytes_per_sec = real_of_int size_diff / time_diff;
                          speed_mb_per_sec = speed_bytes_per_sec / (1024 * 1024)
                      in Inr (max 0 speed_mb_per_sec, PyDict (d(a \<mapsto> (size_now, current_time)))))
                   else Inr (0, PyDict (d(a \<mapsto> (size_now, current_time)))))
           | None \<Rightarrow> Inr (0, PyDict (d(a \<mapsto> (size_now, current_time))))))"

text \<open>\<open>_estimate_download_speed\<close>: the \<open>except\<close> clause returns 0.0 and keeps the state.\<close>

definition estimate_download_speed ::
    "download_monitor_v2 \<Rightarrow> node \<Rightarrow> string \<Rightarrow> string \<Rightarrow> real \<Rightarrow> real \<times> download_monitor_v2" where
  "estimate_download_speed m fs a folder current_time =
     (let downloading_folder = path_join (path_join folder ''downloading'') a
      in (case resolve fs downloading_folder of
            None \<Rightarrow> (0, m)
          | Some tree \<Rightarrow>
              if \<not> node_exists tree then (0, m)
              else (case update_stats (download_stats m) a (total_size tree) current_time of
                      Inl e \<Rightarrow> (0, m)
                    | Inr (speed, st) \<Rightarrow> (speed, m\<lparr>download_stats := st\<rparr>))))"

text \<open>
  \<open>_get_downloading_apps\<close>. \<open>scan_file\<close> is the body of the inner loop for one directory
  entry, \<open>scan_folders\<close> the outer loop. \<open>os.listdir\<close> of something that is not a
  directory raises, and nothing catches it here.
\<close>

definition scan_file :: "node \<Rightarrow> string \<Rightarrow> string list \<Rightarrow> string \<Rightarrow> string list" where
  "scan_file fs folder downloading_apps file =
     (if prefix ''appmanifest_'' file \<and> suffix ''.acf'' file then
        (let a = remove_all ''.acf'' (remove_all ''appmanifest_'' file);
             manifest_path = path_join folder file;
             downloading_folder = path_join (path_join folder ''downloading'') a;
             apps1 = (if path_exists fs downloading_folder then downloading_apps @ [a]
                      else downloading_apps)
         in (case read_text fs manifest_path of
               Inl e \<Rightarrow> apps1
             | Inr content \<Rightarrow>
                 if sublist ''StateFlags'' content then
                   (case kv_search ''StateFlags'' is_digit content of
                      Some flags \<Rightarrow>
                        if flags \<in> set [''2'', ''4'', ''6''] \<and> a \<notin> set apps1
                        then apps1 @ [a] else apps1
                    | None \<Rightarrow> apps1)
                 else apps1))
      else downloading_apps)"

fun scan_folders :: "node \<Rightarrow> string list \<Rightarrow> string list \<Rightarrow> py_error + string list" where
  "scan_folders fs downloading_apps [] = Inr downloading_apps"
| "scan_folders fs downloading_apps (folder # folders) =
     (if \<not> path_exists fs folder then scan_folders fs downloading_apps folders
      else (case listdir fs folder of
              Inl e \<Rightarrow> Inl e
            | Inr files \<Rightarrow>
                scan_folders fs (foldl (scan_file fs folder) downloading_apps files) folders))"

definition get_downloading_apps :: "download_monitor_v2 \<Rightarrow> node \<Rightarrow> py_error + string list" where
  "get_downloading_apps m fs =
     (case steam_path m of
        None \<Rightarrow> Inr []
      | Some sp \<Rightarrow>
          if sp = [] then Inr []
          else scan_folders fs [] (library_folders sp fs))"

text \<open>
  The body of the loop of \<open>get_download_info\<close> for one identifier: the estimate, then
  the activity check on the same staging directory. The clock is read once per poll.
\<close>

definition is_active :: "node \<Rightarrow> string \<Rightarrow> real \<Rightarrow> bool" where
  "is_active fs downloading_folder now =
     (case resolve fs downloading_folder of
        None \<Rightarrow> False
      | Some tree \<Rightarrow> node_exists tree \<and> now - latest_mtime tree < 120)"

definition download_entry ::
    "string \<Rightarrow> node \<Rightarrow> real \<Rightarrow> download_monitor_v2 \<Rightarrow> string \<Rightarrow> real download \<times> download_monitor_v2" where
  "download_entry sp fs now m a =
     (let name = get_app_name (Some sp) fs a;
          steamapps_folder = path_join sp ''steamapps'';
          (speed, m') = estimate_download_speed m fs a steamapps_folder now;
          downloading_folder = path_join (path_join steamapps_folder ''downloading'') a;
          active = is_active fs downloading_folder now
      in (\<lparr> app_id = a, game_name = name,
            speed_mbps = (if active then speed else 0),
            status = (if active then ''downloading'' else ''paused'') \<rparr>, m'))"

fun download_entries ::
    "string \<Rightarrow> node \<Rightarrow> real \<Rightarrow> download_monitor_v2 \<Rightarrow> string list \<Rightarrow> real download list \<times> download_monitor_v2" where
  "download_entries sp fs now m [] = ([], m)"
| "download_entries sp fs now m (a # as) =
     (let (d, m') = download_entry sp fs now m a;
          (ds, m'') = download_entries sp fs now m' as
      in (d # ds, m''))"

definition get_download_info ::
    "download_monitor_v2 \<Rightarrow> node \<Rightarrow> real \<Rightarrow> py_error + (real download list \<times> download_monitor_v2)" where
  "get_download_info m fs now =
     (case steam_path m of
        None \<Rightarrow> Inr ([], m)
      | Some sp \<Rightarrow>
          if sp = [] then Inr ([], m)
          else (case get_downloading_apps m fs of
                  Inl e \<Rightarrow> Inl e
                | Inr apps \<Rightarrow> Inr (download_entries sp fs now m apps)))"

section \<open>The monitor loops\<close>

text \<open>
  What a run of \<open>monitor\<close> does is recorded as a list of events; a \<open>Poll\<close> is one check,
  the only place where a log is read, a directory scanned or a manifest looked up.
  The world is the file system as a function of the clock; one check takes \<open>cost\<close>
  seconds, and the clock otherwise moves only in \<open>time.sleep\<close>. The loop may run
  forever (an interval of 0 with checks that take no time), so it carries fuel:
  \<open>None\<close> means the fuel ran out. \<open>time.sleep\<close> of a negative number raises.
\<close>

datatype 'r event = Error_not_found | Warn_log_missing | Banner | Poll nat 'r | Sleep real | Finished

fun monitor_loop ::
    "nat \<Rightarrow> (real \<Rightarrow> node) \<Rightarrow> real \<Rightarrow> real \<Rightarrow> real \<Rightarrow> download_monitor \<Rightarrow> real \<Rightarrow> nat
      \<Rightarrow> pyfloat status_info option \<Rightarrow> (pyfloat status_info option \<times> pyfloat status_info option) event list
      \<Rightarrow> (py_error + download_monitor \<times> (pyfloat status_info option \<times> pyfloat status_info option) event list) option"
  where
  "monitor_loop 0 fs_at cost end_time interval_seconds m t check_count last_status out = None"
| "monitor_loop (Suc fuel) fs_at cost end_time interval_seconds m t check_count last_status out =
     (if t < end_time then
        (let check_count' = check_count + 1;
             (st, m') = get_current_download_status m (fs_at t) t;
             last_status' = (case st of Some x \<Rightarrow> Some x | None \<Rightarrow> last_status);
             out' = out @ [Poll check_count' (st, last_status)];
             t' = t + cost;
             remaining_time = end_time - t'
         in if remaining_time > interval_seconds then
              (if interval_seconds < 0 then Some (Inl ValueError)
               else monitor_loop fuel fs_at cost end_time interval_seconds m'
                      (t' + interval_seconds) check_count' last_status'
                      (out' @ [Sleep interval_seconds]))
            else if remaining_time > 0 then
              monitor_loop fuel fs_at cost end_time interval_seconds m'
                (t' + remaining_time) check_count' last_status' (out' @ [Sleep remaining_time])
            else Some (Inr (m', out' @ [Finished])))
      else Some (Inr (m, out @ [Finished])))"

text \<open>
  \<open>SteamDownloadMonitor.monitor\<close>, started when the clock reads \<open>t0\<close>.
  \<open>os.path.exists(None)\<close> raises \<open>TypeError\<close>.
\<close>

definition monitor ::
    "nat \<Rightarrow> (real \<Rightarrow> node) \<Rightarrow> real \<Rightarrow> real \<Rightarrow> real \<Rightarrow> real \<Rightarrow> download_monitor
      \<Rightarrow> (py_error + download_monitor \<times> (pyfloat status_info option \<times> pyfloat status_info option) event list) option"
  where
  "monitor fuel fs_at cost t0 duration_minutes interval_seconds m =
     (if \<not> truthy (steam_path m) then Some (Inr (m, [Error_not_found]))
      else (case log_path m of
              None \<Rightarrow> Some (Inl TypeError)
            | Some lp \<Rightarrow>
                monitor_loop fuel fs_at cost (t0 + duration_minutes * 60) interval_seconds m t0 0 None
                  ((if \<not> path_exists (fs_at t0) lp then [Warn_log_missing] else []) @ [Banner])))"

fun monitor_loop_v2 ::
    "nat \<Rightarrow> (real \<Rightarrow> node) \<Rightarrow> real \<Rightarrow> real \<Rightarrow> real \<Rightarrow> download_monitor_v2 \<Rightarrow> real \<Rightarrow> nat
      \<Rightarrow> (real download list) event list
      \<Rightarrow> (py_error + download_monitor_v2 \<times> (real download list) event list) option"
  where
  "monitor_loop_v2 0 fs_at cost end_time interval_seconds m t check_count out = None"
| "monitor_loop_v2 (Suc fuel) fs_at cost end_time interval_seconds m t check_count out =
     (if t < end_time then
        (case get_download_info m (fs_at t) t of
           Inl e \<Rightarrow> Some (Inl e)
         | Inr (downloads, m') \<Rightarrow>
             (let check_count' = check_count + 1;
                  out' = out @ [Poll check_count' downloads];
                  t' = t + cost;
                  remaining_time = end_time - t'
              in if remaining_time > interval_seconds then
                   (if interval_seconds < 0 then Some (Inl ValueError)
                    else monitor_loop_v2 fuel fs_at cost end_time interval_seconds m'
                           (t' + interval_seconds) check_count' (out' @ [Sleep interval_seconds]))
                 else if remaining_time > 0 then
                   monitor_loop_v2 fuel fs_at cost end_time interval_seconds m'
                     (t' + remaining_time) check_count' (out' @ [Sleep remaining_time])
                 else Some (Inr (m', out' @ [Finished]))))
      else Some (Inr (m, out @ [Finished])))"

text \<open>\<open>SteamDownloadMonitorV2.monitor\<close>\<close>

definition monitor_v2 ::
    "nat \<Rightarrow> (real \<Rightarrow> node) \<Rightarrow> real \<Rightarrow> real \<Rightarrow> real \<Rightarrow> real \<Rightarrow> download_monitor_v2
      \<Rightarrow> (py_error + download_monitor_v2 \<times> (real download list) event list) option"
  where
  "monitor_v2 fuel fs_at cost t0 duration_minutes interval_seconds m =
     (if \<not> truthy (steam_path m) then Some (Inr (m, [Error_not_found]))
      else monitor_loop_v2 fuel fs_at cost (t0 + duration_minutes * 60) interval_seconds m t0 0
             [Banner])"

section \<open>The shapes and notions the specification speaks of\<close>

text \<open>
  A throughput marker with the white space before it; the optional fraction of a number;
  a number as the parser accepts it: digits, then possibly a point and more digits.
\<close>

definition unit_tail :: "string \<Rightarrow> bool" where
  "unit_tail t = (\<exists>ws post. t = ws @ ''MB/s'' @ post \<and> list_all is_space ws)"

definition frac_part :: "string \<Rightarrow> bool" where
  "frac_part f = (\<exists>dot d. f = dot @ d \<and> (dot = [] \<or> dot = ''.'') \<and> list_all is_digit d)"

definition is_numeral :: "string \<Rightarrow> bool" where
  "is_numeral r = (\<exists>d f. r = d @ f \<and> d \<noteq> [] \<and> list_all is_digit d \<and> frac_part f)"

text \<open>
  Shape (a): an identifier token \<open>AppID a\<close>, followed later by the number \<open>num\<close> right
  before a throughput marker.
\<close>

definition shape_a :: "string \<Rightarrow> string \<Rightarrow> string \<Rightarrow> bool" where
  "shape_a line a num =
     (\<exists>pre mid t. line = pre @ ''AppID '' @ a @ mid @ num @ t \<and>
        a \<noteq> [] \<and> list_all is_digit a \<and> is_numeral num \<and> unit_tail t)"


text \<open>A line has no line feed except possibly as its last character.\<close>

definition is_line :: "string \<Rightarrow> bool" where
  "is_line s = (newline \<notin> set (butlast s))"


definition pause_word :: "string \<Rightarrow> bool" where
  "pause_word line =
     (\<exists>u v w. line = u @ v @ w \<and> (lower v = ''paused'' \<or> lower v = ''suspended''))"


text \<open>
  A match of the speed pattern in a line, part by part: the text before the token, the
  identifier, the gap, the number and the rest, which begins with the marker. The gap
  holds no line feed. The match the parser reports is the leftmost one, with the longest
  identifier at that place, and the shortest gap after that identifier.
\<close>

definition speed_match :: "string \<Rightarrow> string \<Rightarrow> string \<Rightarrow> string \<Rightarrow> string \<Rightarrow> string \<Rightarrow> bool" where
  "speed_match line pre a mid num t =
     (line = pre @ ''AppID '' @ a @ mid @ num @ t \<and> a \<noteq> [] \<and> list_all is_digit a
      \<and> newline \<notin> set mid \<and> is_numeral num \<and> unit_tail t)"

definition best_match :: "string \<Rightarrow> string \<Rightarrow> string \<Rightarrow> string \<Rightarrow> string \<Rightarrow> string \<Rightarrow> bool" where
  "best_match line pre a mid num t =
     (speed_match line pre a mid num t
      \<and> (\<forall>pre' a' mid' num' t'. speed_match line pre' a' mid' num' t' \<longrightarrow> length pre \<le> length pre')
      \<and> (\<forall>a' mid' num' t'. speed_match line pre a' mid' num' t' \<longrightarrow> length a' \<le> length a)
      \<and> (\<forall>mid' num' t'. speed_match line pre a mid' num' t' \<longrightarrow> length mid \<le> length mid'))"

text \<open>The same for the parts of the pattern that follow the token and the identifier.\<close>

definition tail_match :: "string \<Rightarrow> string \<Rightarrow> string \<Rightarrow> string \<Rightarrow> bool" where
  "tail_match s mid num t =
     (s = mid @ num @ t \<and> newline \<notin> set mid \<and> is_numeral num \<and> unit_tail t)"

definition id_match :: "string \<Rightarrow> string \<Rightarrow> string \<Rightarrow> string \<Rightarrow> string \<Rightarrow> bool" where
  "id_match s a mid num t =
     (s = a @ mid @ num @ t \<and> a \<noteq> [] \<and> list_all is_digit a
      \<and> newline \<notin> set mid \<and> is_numeral num \<and> unit_tail t)"



text \<open>The cursor after each poll of a sequence of polls, one file system per poll.\<close>

fun cursor_trace :: "download_monitor \<Rightarrow> node list \<Rightarrow> nat list" where
  "cursor_trace m [] = []"
| "cursor_trace m (fs # fss) =
     (let m' = snd (read_new_log_entries m fs) in last_position m' # cursor_trace m' fss)"


text \<open>The records of a poll of Strategy B; none if the poll raised.\<close>

definition records_of :: "py_error + (real download list \<times> download_monitor_v2) \<Rightarrow> real download list" where
  "records_of r = (case r of Inl e \<Rightarrow> [] | Inr (ds, m) \<Rightarrow> ds)"

text \<open>
  A discovery candidate of one directory entry of one library folder: the entry is a
  manifest file name, the identifier is what is left of the name, and either the staging
  directory exists under the folder or the manifest's first state flags are 2, 4 or 6.
\<close>

definition candidate :: "node \<Rightarrow> string \<Rightarrow> string \<Rightarrow> string \<Rightarrow> bool" where
  "candidate fs folder file a =
     (prefix ''appmanifest_'' file \<and> suffix ''.acf'' file
      \<and> a = remove_all ''.acf'' (remove_all ''appmanifest_'' file)
      \<and> (path_exists fs (path_join (path_join folder ''downloading'') a)
           \<or> (\<exists>content flags. read_text fs (path_join folder file) = Inr content
                 \<and> sublist ''StateFlags'' content
                 \<and> kv_search ''StateFlags'' is_digit content = Some flags
                 \<and> flags \<in> {''2'', ''4'', ''6''})))"

section \<open>Example installations\<close>

text \<open>An install root \<open>S\<close> whose log has the given content.\<close>

definition log_fs :: "string \<Rightarrow> node" where
  "log_fs bytes =
     Dir [(''S'', Dir [(''logs'', Dir [(''content_log.txt'', File (Data bytes) 0)])])]"

text \<open>
  An install root \<open>S\<close> with one staging directory for identifier 123 that holds a single
  file of the given size and modification time, and no manifest.
\<close>

definition staging_fs :: "nat \<Rightarrow> real \<Rightarrow> node" where
  "staging_fs n t =
     Dir [(''S'', Dir [(''steamapps'', Dir [
       (''downloading'', Dir [(''123'', Dir [(''chunk.bin'', File (Blob n) t)])])])])]"

text \<open>
  Two library roots \<open>S\<close> and \<open>L\<close>; \<open>libraryfolders.vdf\<close> declares \<open>L\<close>. Both hold a
  manifest of identifier 10 with state flags 4 and a staging directory for it.
\<close>

definition quoted :: "string \<Rightarrow> string" where
  "quoted s = [quote] @ s @ [quote]"

definition manifest_10 :: string where
  "manifest_10 = quoted ''name'' @ '' '' @ quoted ''Game'' @ '' ''
                 @ quoted ''StateFlags'' @ '' '' @ quoted ''4''"

definition library_10 :: "(string \<times> node) list" where
  "library_10 =
     [(''appmanifest_10.acf'', File (Data manifest_10) 0),
      (''downloading'', Dir [(''10'', Dir [(''chunk.bin'', File (Blob 7) 0)])])]"

definition two_library_fs :: node where
  "two_library_fs =
     Dir [(''S'', Dir [(''steamapps'', Dir (
             (''libraryfolders.vdf'', File (Data (quoted ''path'' @ '' '' @ quoted ''L'')) 0)
             # library_10))]),
          (''L'', Dir [(''steamapps'', Dir library_10)])]"

section \<open>The speed pattern: what the matcher accepts\<close>

lemma not_space_M: "\<not> is_space CHR ''M''"
  by (simp add: is_space_def)

lemma not_digit_M: "\<not> is_digit CHR ''M''"
  by (simp add: is_digit_def)

lemma not_digit_dot: "\<not> is_digit CHR ''.''"
  by (simp add: is_digit_def)

lemma not_digit_space: "is_space c \<Longrightarrow> \<not> is_digit c"
  by (auto simp: is_digit_def is_space_def)

lemma match_unit_sound: "match_unit s \<Longrightarrow> unit_tail s"
proof (induction s)
  case Nil
  then show ?case by simp
next
  case (Cons c cs)
  show ?case
  proof (cases "is_space c \<and> match_unit cs")
    case True
    then obtain ws post where "cs = ws @ ''MB/s'' @ post" "list_all is_space ws"
      using Cons.IH by (auto simp: unit_tail_def)
    then have "c # cs = (c # ws) @ ''MB/s'' @ post \<and> list_all is_space (c # ws)"
      using True by simp
    then show ?thesis unfolding unit_tail_def by blast
  next
    case False
    then have "prefix ''MB/s'' (c # cs)"
      using Cons.prems by (auto split: if_splits)
    then obtain post where "c # cs = [] @ ''MB/s'' @ post"
      by (auto simp: prefix_def)
    moreover have "list_all is_space []" by simp
    ultimately show ?thesis unfolding unit_tail_def by blast
  qed
qed

lemma match_unit_complete:
  "list_all is_space ws \<Longrightarrow> match_unit (ws @ ''MB/s'' @ post)"
  by (induction ws) (auto simp: not_space_M)

lemma match_unit_iff: "match_unit s = unit_tail s"
  using match_unit_sound match_unit_complete unfolding unit_tail_def by blast

lemma unit_tail_not_digit: "unit_tail (c # cs) \<Longrightarrow> \<not> is_digit c"
  unfolding unit_tail_def
  by (auto simp: Cons_eq_append_conv not_digit_M not_digit_space)

lemma unit_tail_not_dot: "unit_tail (c # cs) \<Longrightarrow> c \<noteq> CHR ''.''"
  unfolding unit_tail_def
  by (auto simp: Cons_eq_append_conv is_space_def)

lemma unit_tail_not_Nil: "\<not> unit_tail []"
  by (simp add: unit_tail_def)

lemma match_frac_sound:
  "match_frac s = Some r \<Longrightarrow> list_all is_digit r \<and> (\<exists>t. s = r @ t \<and> unit_tail t)"
proof (induction s arbitrary: r)
  case Nil
  then show ?case by simp
next
  case (Cons c cs)
  then show ?case
    by (auto simp: match_unit_iff split: if_splits option.splits)
qed

lemma match_frac_complete:
  "list_all is_digit d \<Longrightarrow> unit_tail t \<Longrightarrow> match_frac (d @ t) \<noteq> None"
proof (induction d)
  case Nil
  then show ?case
    by (cases t) (auto simp: match_unit_iff unit_tail_not_Nil unit_tail_not_digit)
next
  case (Cons c d)
  then show ?case by (auto split: option.splits)
qed

lemma match_dot_sound:
  "match_dot s = Some r \<Longrightarrow> frac_part r \<and> (\<exists>t. s = r @ t \<and> unit_tail t)"
proof (cases s)
  case Nil
  assume "match_dot s = Some r"
  then show ?thesis using Nil by simp
next
  case (Cons c cs)
  assume m: "match_dot s = Some r"
  show ?thesis
  proof (cases "c = CHR ''.'' \<and> match_frac cs \<noteq> None")
    case True
    then obtain r' where r': "match_frac cs = Some r'" by auto
    then have r: "r = ''.'' @ r'" using m Cons True by simp
    have d: "list_all is_digit r' \<and> (\<exists>t. cs = r' @ t \<and> unit_tail t)"
      using match_frac_sound [OF r'] .
    have "frac_part (''.'' @ r')"
      unfolding frac_part_def using d by blast
    then show ?thesis using Cons True r d by auto
  next
    case False
    then have "match_frac s = Some r" using m Cons by (auto split: if_splits option.splits)
    then have "list_all is_digit r \<and> (\<exists>t. s = r @ t \<and> unit_tail t)"
      by (rule match_frac_sound)
    then show ?thesis unfolding frac_part_def by auto
  qed
qed

lemma match_dot_complete:
  assumes "frac_part f" "unit_tail t"
  shows "match_dot (f @ t) \<noteq> None"
proof -
  obtain dot d where f: "f = dot @ d" "dot = [] \<or> dot = ''.''" "list_all is_digit d"
    using assms(1) unfolding frac_part_def by blast
  have fr: "match_frac (d @ t) \<noteq> None"
    using match_frac_complete [OF f(3) assms(2)] .
  show ?thesis
  proof (cases "dot = []")
    case True
    then show ?thesis using fr f by (cases "d @ t") (auto split: option.splits)
  next
    case False
    then show ?thesis using fr f by (auto split: option.splits)
  qed
qed

lemma match_num_sound:
  "match_num s = Some r \<Longrightarrow> is_numeral r \<and> (\<exists>t. s = r @ t \<and> unit_tail t)"
proof (induction s arbitrary: r)
  case Nil
  then show ?case by simp
next
  case (Cons c cs)
  then have dc: "is_digit c" by (auto split: if_splits)
  show ?case
  proof (cases "match_num cs")
    case None
    then obtain f where f: "match_dot cs = Some f" "r = c # f"
      using Cons.prems dc by auto
    have "frac_part f \<and> (\<exists>t. cs = f @ t \<and> unit_tail t)"
      using match_dot_sound [OF f(1)] .
    moreover have "c # f = [c] @ f \<and> [c] \<noteq> [] \<and> list_all is_digit [c]"
      using dc by simp
    ultimately show ?thesis using f(2) unfolding is_numeral_def by (metis append_Cons)
  next
    case (Some r')
    then have r: "r = c # r'" using Cons.prems dc by simp
    obtain d f t where "r' = d @ f" "d \<noteq> []" "list_all is_digit d" "frac_part f"
      "cs = r' @ t" "unit_tail t"
      using Cons.IH [OF Some] unfolding is_numeral_def by blast
    then have "c # r' = (c # d) @ f \<and> c # d \<noteq> [] \<and> list_all is_digit (c # d) \<and> frac_part f
        \<and> c # cs = (c # r') @ t \<and> unit_tail t"
      using dc by simp
    then show ?thesis unfolding r is_numeral_def by blast
  qed
qed

lemma match_num_complete_aux:
  "d \<noteq> [] \<Longrightarrow> list_all is_digit d \<Longrightarrow> frac_part f \<Longrightarrow> unit_tail t
     \<Longrightarrow> match_num (d @ f @ t) \<noteq> None"
proof (induction d)
  case Nil
  then show ?case by simp
next
  case (Cons c d)
  show ?case
  proof (cases "d = []")
    case True
    then show ?thesis
      using Cons.prems match_dot_complete [of f t] by (auto split: option.splits)
  next
    case False
    then show ?thesis using Cons by (auto split: option.splits)
  qed
qed

lemma match_num_complete:
  "is_numeral r \<Longrightarrow> unit_tail t \<Longrightarrow> match_num (r @ t) \<noteq> None"
  unfolding is_numeral_def using match_num_complete_aux by fastforce


lemma match_lazy_num:
  assumes "match_num s \<noteq> None"
  shows "match_lazy s \<noteq> None"
proof (cases s)
  case Nil
  then show ?thesis using assms by simp
next
  case (Cons c cs)
  obtain r where "match_num (c # cs) = Some r" using assms Cons by auto
  then have "match_lazy (c # cs) = Some r" by (simp only: match_lazy.simps option.case)
  then show ?thesis using Cons by simp
qed

lemma match_lazy_complete:
  "newline \<notin> set mid \<Longrightarrow> is_numeral r \<Longrightarrow> unit_tail t \<Longrightarrow> match_lazy (mid @ r @ t) \<noteq> None"
proof (induction mid)
  case Nil
  then show ?case using match_lazy_num [OF match_num_complete] by simp
next
  case (Cons c mid)
  then have "c \<noteq> newline" "match_lazy (mid @ r @ t) \<noteq> None" by auto
  then show ?case
    by (cases "match_num (c # mid @ r @ t)") (simp_all del: match_num.simps)
qed


lemma match_id_complete:
  "a \<noteq> [] \<Longrightarrow> list_all is_digit a \<Longrightarrow> newline \<notin> set mid \<Longrightarrow> is_numeral r \<Longrightarrow> unit_tail t
     \<Longrightarrow> match_id (a @ mid @ r @ t) \<noteq> None"
proof (induction a)
  case Nil
  then show ?case by simp
next
  case (Cons c a)
  show ?case
  proof (cases "a = []")
    case True
    have "match_lazy (mid @ r @ t) \<noteq> None"
      using Cons.prems by (simp add: match_lazy_complete)
    then show ?thesis using True Cons.prems by (auto split: option.splits)
  next
    case False
    then have "match_id (a @ mid @ r @ t) \<noteq> None" using Cons by simp
    then show ?thesis using Cons.prems by (auto split: option.splits)
  qed
qed


lemma search_speed_append:
  "search_speed s \<noteq> None \<Longrightarrow> search_speed (pre @ s) \<noteq> None"
proof (induction pre)
  case Nil
  then show ?case by simp
next
  case (Cons c pre)
  then have "search_speed (pre @ s) \<noteq> None" by simp
  then show ?case
    by (cases "match_speed_here (c # pre @ s)") (simp_all del: search_speed.simps(1))
qed

lemma search_speed_here:
  assumes "match_speed_here s \<noteq> None"
  shows "search_speed s \<noteq> None"
proof (cases s)
  case Nil
  then show ?thesis using assms by (simp add: match_speed_here_def)
next
  case (Cons c cs)
  then show ?thesis using assms by auto
qed

lemma line_mid_free:
  assumes "is_line (pre @ mid @ rest)" "rest \<noteq> []"
  shows "newline \<notin> set mid"
proof -
  have "butlast (pre @ mid @ rest) = pre @ mid @ butlast rest"
    using assms(2) by (simp add: butlast_append)
  then show ?thesis using assms(1) by (simp add: is_line_def)
qed

lemma unit_tail_nonempty: "unit_tail t \<Longrightarrow> t \<noteq> []"
  using unit_tail_not_Nil by blast





lemma sublist_map_iff:
  "sublist xs (map f l) \<longleftrightarrow> (\<exists>u v w. l = u @ v @ w \<and> map f v = xs)"
proof
  assume "sublist xs (map f l)"
  then obtain ps ss where "map f l = ps @ xs @ ss" by (auto simp: sublist_def)
  then have "\<exists>u r. l = u @ r \<and> ps = map f u \<and> xs @ ss = map f r"
    by (simp only: map_eq_append_conv)
  then obtain u r where ur: "l = u @ r" "map f r = xs @ ss" by auto
  have "\<exists>v w. r = v @ w \<and> xs = map f v \<and> ss = map f w"
    using ur(2) by (simp only: map_eq_append_conv)
  then obtain v w where "r = v @ w" "map f v = xs" by auto
  then show "\<exists>u v w. l = u @ v @ w \<and> map f v = xs" using ur(1) by blast
next
  assume "\<exists>u v w. l = u @ v @ w \<and> map f v = xs"
  then obtain u v w where "l = u @ v @ w" "map f v = xs" by blast
  then have "map f l = map f u @ xs @ map f w" by simp
  then show "sublist xs (map f l)" unfolding sublist_def by blast
qed

lemma sublist_map_or:
  "(sublist p (map f l) \<or> sublist q (map f l)) =
     (\<exists>u v w. l = u @ v @ w \<and> (map f v = p \<or> map f v = q))"
  unfolding sublist_map_iff by blast

lemma has_pause_word_iff: "has_pause_word line = pause_word line"
  unfolding has_pause_word_def pause_word_def lower_def by (rule sublist_map_or)



section \<open>The log line parser\<close>

text \<open>Which match the matcher reports, and that there is only one such.\<close>

lemma match_lazy_best:
  "match_lazy s = Some r \<Longrightarrow>
     \<exists>mid t. tail_match s mid r t \<and>
       (\<forall>mid' r' t'. tail_match s mid' r' t' \<longrightarrow> length mid \<le> length mid')"
proof (induction s)
  case Nil
  then show ?case by simp
next
  case (Cons c cs)
  show ?case
  proof (cases "match_num (c # cs)")
    case (Some r')
    then have "r' = r" using Cons.prems by simp
    then obtain t where "is_numeral r" "c # cs = r @ t" "unit_tail t"
      using match_num_sound [OF Some] by blast
    then have "tail_match (c # cs) [] r t" by (simp add: tail_match_def)
    then show ?thesis by fastforce
  next
    case None
    then have nl: "c \<noteq> newline" and l: "match_lazy cs = Some r"
      using Cons.prems by (auto split: if_splits)
    obtain mid t where m: "tail_match cs mid r t"
      and least: "\<And>mid' r' t'. tail_match cs mid' r' t' \<Longrightarrow> length mid \<le> length mid'"
      using Cons.IH [OF l] by blast
    have here: "tail_match (c # cs) (c # mid) r t"
      using m nl by (simp add: tail_match_def)
    have "length (c # mid) \<le> length mid'" if tm: "tail_match (c # cs) mid' r' t'" for mid' r' t'
    proof (cases mid')
      case Nil
      then have "c # cs = r' @ t'" "is_numeral r'" "unit_tail t'"
        using tm by (simp_all add: tail_match_def)
      then have "match_num (c # cs) \<noteq> None" using match_num_complete by metis
      then show ?thesis using None by simp
    next
      case (Cons d m')
      then have "tail_match cs m' r' t'" using tm by (simp add: tail_match_def)
      then have "length mid \<le> length m'" by (rule least)
      then show ?thesis using Cons by simp
    qed
    then show ?thesis using here by blast
  qed
qed

lemma match_id_best:
  "match_id s = Some (a, r) \<Longrightarrow>
     \<exists>mid t. id_match s a mid r t
       \<and> (\<forall>a' mid' r' t'. id_match s a' mid' r' t' \<longrightarrow> length a' \<le> length a)
       \<and> (\<forall>mid' r' t'. id_match s a mid' r' t' \<longrightarrow> length mid \<le> length mid')"
proof (induction s arbitrary: a)
  case Nil
  then show ?case by simp
next
  case (Cons c cs)
  then have dc: "is_digit c" by (auto split: if_splits)
  show ?case
  proof (cases "match_id cs")
    case None
    then have l: "match_lazy cs = Some r" and a: "a = [c]"
      using Cons.prems dc by auto
    obtain mid t where m: "tail_match cs mid r t"
      and least: "\<And>mid' r' t'. tail_match cs mid' r' t' \<Longrightarrow> length mid \<le> length mid'"
      using match_lazy_best [OF l] by blast
    have here: "id_match (c # cs) [c] mid r t"
      using m dc by (simp add: tail_match_def id_match_def)
    have longest: "length a' \<le> length [c]" if im: "id_match (c # cs) a' mid' r' t'"
      for a' mid' r' t'
    proof -
      obtain a'' where a': "a' = c # a''"
        using im by (cases a') (auto simp: id_match_def)
      have "a'' = []"
      proof (rule ccontr)
        assume ne: "a'' \<noteq> []"
        have "cs = a'' @ mid' @ r' @ t'" "list_all is_digit a''" "newline \<notin> set mid'"
          "is_numeral r'" "unit_tail t'"
          using im a' by (simp_all add: id_match_def)
        then have "match_id cs \<noteq> None" using ne match_id_complete by metis
        then show False using None by simp
      qed
      then show ?thesis using a' by simp
    qed
    have shortest: "length mid \<le> length mid'" if im: "id_match (c # cs) [c] mid' r' t'"
      for mid' r' t'
    proof -
      have "tail_match cs mid' r' t'" using im by (simp add: id_match_def tail_match_def)
      then show ?thesis by (rule least)
    qed
    show ?thesis unfolding a using here longest shortest by blast
  next
    case (Some g)
    obtain a1 r1 where g: "g = (a1, r1)" by (cases g)
    then have eq: "a = c # a1" "r1 = r" using Cons.prems dc Some by auto
    have s1: "match_id cs = Some (a1, r)" using Some g eq by simp
    obtain mid t where m: "id_match cs a1 mid r t"
      and long1: "\<And>a' mid' r' t'. id_match cs a' mid' r' t' \<Longrightarrow> length a' \<le> length a1"
      and short1: "\<And>mid' r' t'. id_match cs a1 mid' r' t' \<Longrightarrow> length mid \<le> length mid'"
      using Cons.IH [OF s1] by blast
    have a1ne: "a1 \<noteq> []" using m by (simp add: id_match_def)
    have here: "id_match (c # cs) (c # a1) mid r t"
      using m dc by (simp add: id_match_def)
    have longest: "length a' \<le> length (c # a1)" if im: "id_match (c # cs) a' mid' r' t'"
      for a' mid' r' t'
    proof -
      obtain a'' where a': "a' = c # a''"
        using im by (cases a') (auto simp: id_match_def)
      show ?thesis
      proof (cases "a'' = []")
        case True
        then show ?thesis using a' by simp
      next
        case False
        then have "id_match cs a'' mid' r' t'" using im a' by (simp add: id_match_def)
        then have "length a'' \<le> length a1" by (rule long1)
        then show ?thesis using a' by simp
      qed
    qed
    have shortest: "length mid \<le> length mid'" if im: "id_match (c # cs) (c # a1) mid' r' t'"
      for mid' r' t'
    proof -
      have "id_match cs a1 mid' r' t'" using im a1ne by (simp add: id_match_def)
      then show ?thesis by (rule short1)
    qed
    show ?thesis unfolding eq(1) using here longest shortest by blast
  qed
qed

lemma match_speed_here_complete:
  assumes "speed_match s [] a mid r t"
  shows "match_speed_here s \<noteq> None"
proof -
  have s: "s = ''AppID '' @ a @ mid @ r @ t" using assms by (simp add: speed_match_def)
  have "match_id (a @ mid @ r @ t) \<noteq> None"
    using assms by (simp add: speed_match_def match_id_complete)
  then show ?thesis unfolding s by (simp add: match_speed_here_def)
qed

lemma speed_match_Cons:
  "speed_match (c # cs) (c # pre) a mid r t = speed_match cs pre a mid r t"
  by (simp add: speed_match_def)

lemma speed_match_pre_Cons:
  assumes "speed_match (c # cs) pre a mid r t" "pre \<noteq> []"
  shows "\<exists>p. pre = c # p \<and> speed_match cs p a mid r t"
  using assms by (cases pre) (auto simp: speed_match_def)

lemma search_speed_best:
  "search_speed s = Some (a, r) \<Longrightarrow> \<exists>pre mid t. best_match s pre a mid r t"
proof (induction s)
  case Nil
  then show ?case by simp
next
  case (Cons c cs)
  show ?case
  proof (cases "match_speed_here (c # cs)")
    case None
    then have "search_speed cs = Some (a, r)" using Cons.prems by simp
    then obtain pre mid t where b: "best_match cs pre a mid r t" using Cons.IH by blast
    have m: "speed_match cs pre a mid r t"
      and left: "\<And>pre' a' mid' r' t'. speed_match cs pre' a' mid' r' t' \<Longrightarrow> length pre \<le> length pre'"
      and long: "\<And>a' mid' r' t'. speed_match cs pre a' mid' r' t' \<Longrightarrow> length a' \<le> length a"
      and short: "\<And>mid' r' t'. speed_match cs pre a mid' r' t' \<Longrightarrow> length mid \<le> length mid'"
      using b unfolding best_match_def by blast+
    have here: "speed_match (c # cs) (c # pre) a mid r t"
      using m by (simp add: speed_match_Cons)
    have leftmost: "length (c # pre) \<le> length pre'"
      if sm: "speed_match (c # cs) pre' a' mid' r' t'" for pre' a' mid' r' t'
    proof (cases "pre' = []")
      case True
      then have "match_speed_here (c # cs) \<noteq> None"
        using sm match_speed_here_complete by blast
      then show ?thesis using None by simp
    next
      case False
      then obtain p where p: "pre' = c # p" "speed_match cs p a' mid' r' t'"
        using speed_match_pre_Cons [OF sm] by blast
      then have "length pre \<le> length p" using left by blast
      then show ?thesis using p by simp
    qed
    have longest: "length a' \<le> length a"
      if "speed_match (c # cs) (c # pre) a' mid' r' t'" for a' mid' r' t'
      using that long by (simp add: speed_match_Cons)
    have shortest: "length mid \<le> length mid'"
      if "speed_match (c # cs) (c # pre) a mid' r' t'" for mid' r' t'
      using that short by (simp add: speed_match_Cons)
    have "best_match (c # cs) (c # pre) a mid r t"
      unfolding best_match_def using here leftmost longest shortest by blast
    then show ?thesis by blast
  next
    case (Some g)
    then have g: "g = (a, r)" using Cons.prems by simp
    have p: "prefix ''AppID '' (c # cs)" and mi: "match_id (drop 6 (c # cs)) = Some (a, r)"
      using Some g by (auto simp: match_speed_here_def split: if_splits)
    obtain rest where rest: "c # cs = ''AppID '' @ rest"
      using p by (auto simp: prefix_def)
    then have mr: "match_id rest = Some (a, r)" using mi by simp
    obtain mid t where m: "id_match rest a mid r t"
      and long: "\<And>a' mid' r' t'. id_match rest a' mid' r' t' \<Longrightarrow> length a' \<le> length a"
      and short: "\<And>mid' r' t'. id_match rest a mid' r' t' \<Longrightarrow> length mid \<le> length mid'"
      using match_id_best [OF mr] by blast
    have conv: "speed_match (c # cs) [] a' mid' r' t' = id_match rest a' mid' r' t'"
      for a' mid' r' t'
      unfolding rest by (simp add: speed_match_def id_match_def)
    have "best_match (c # cs) [] a mid r t"
      unfolding best_match_def using m long short by (simp add: conv)
    then show ?thesis by blast
  qed
qed

lemma is_numeral_chars:
  assumes "is_numeral n"
  shows "\<forall>c \<in> set n. is_digit c \<or> c = CHR ''.''"
proof -
  obtain d f dot e where "n = d @ f" "list_all is_digit d" "f = dot @ e"
      "dot = [] \<or> dot = ''.''" "list_all is_digit e"
    using assms unfolding is_numeral_def frac_part_def by blast
  then show ?thesis by (auto simp: list_all_iff)
qed

lemma takeWhile_numeral:
  assumes "is_numeral n" "unit_tail t"
  shows "takeWhile (\<lambda>c. is_digit c \<or> c = CHR ''.'') (n @ t) = n"
proof -
  obtain c cs where t: "t = c # cs" using assms(2) unit_tail_not_Nil by (cases t) auto
  have "\<not> (is_digit c \<or> c = CHR ''.'')"
    using assms(2) t unit_tail_not_digit unit_tail_not_dot by blast
  then have "takeWhile (\<lambda>c. is_digit c \<or> c = CHR ''.'') t = []" using t by simp
  then show ?thesis using is_numeral_chars [OF assms(1)] by (simp add: takeWhile_append2)
qed

lemma numeral_unique:
  assumes "is_numeral n" "unit_tail t" "is_numeral n'" "unit_tail t'" "n @ t = n' @ t'"
  shows "n = n'"
  using takeWhile_numeral [OF assms(1,2)] takeWhile_numeral [OF assms(3,4)] assms(5) by simp

lemma best_match_leftmost:
  "best_match line pre a mid num t \<Longrightarrow> speed_match line pre' a' mid' num' t'
     \<Longrightarrow> length pre \<le> length pre'"
  unfolding best_match_def by blast

lemma best_match_longest:
  "best_match line pre a mid num t \<Longrightarrow> speed_match line pre a' mid' num' t'
     \<Longrightarrow> length a' \<le> length a"
  unfolding best_match_def by blast

lemma best_match_shortest:
  "best_match line pre a mid num t \<Longrightarrow> speed_match line pre a mid' num' t'
     \<Longrightarrow> length mid \<le> length mid'"
  unfolding best_match_def by blast

lemma best_match_unique:
  assumes "best_match line pre a mid num t" "best_match line pre' a' mid' num' t'"
  shows "pre' = pre \<and> a' = a \<and> mid' = mid \<and> num' = num \<and> t' = t"
proof -
  have m: "speed_match line pre a mid num t" and m': "speed_match line pre' a' mid' num' t'"
    using assms unfolding best_match_def by simp_all
  have "length pre \<le> length pre'"
    using assms(1) m' by (rule best_match_leftmost)
  moreover have "length pre' \<le> length pre"
    using assms(2) m by (rule best_match_leftmost)
  ultimately have lp: "length pre = length pre'" by simp
  have e: "pre @ ''AppID '' @ a @ mid @ num @ t = pre' @ ''AppID '' @ a' @ mid' @ num' @ t'"
    using m m' unfolding speed_match_def by simp
  have pre: "pre' = pre" and e1: "a @ mid @ num @ t = a' @ mid' @ num' @ t'"
    using e lp by simp_all
  have "length a' \<le> length a"
    using assms(1) m' [unfolded pre] by (rule best_match_longest)
  moreover have "length a \<le> length a'"
    using assms(2) [unfolded pre] m by (rule best_match_longest)
  ultimately have la: "length a = length a'" by simp
  have a: "a' = a" and e2: "mid @ num @ t = mid' @ num' @ t'"
    using e1 la by simp_all
  have "length mid \<le> length mid'"
    using assms(1) m' [unfolded pre a] by (rule best_match_shortest)
  moreover have "length mid' \<le> length mid"
    using assms(2) [unfolded pre a] m by (rule best_match_shortest)
  ultimately have lm: "length mid = length mid'" by simp
  have mid: "mid' = mid" and e3: "num @ t = num' @ t'"
    using e2 lm by simp_all
  have "is_numeral num" "unit_tail t" "is_numeral num'" "unit_tail t'"
    using m m' unfolding speed_match_def by simp_all
  then have num: "num = num'" using e3 by (rule numeral_unique)
  then have "t' = t" using e3 by simp
  then show ?thesis using pre a mid num by simp
qed

lemma search_speed_match:
  assumes "speed_match line pre a mid num t"
  shows "search_speed line \<noteq> None"
proof -
  have l: "line = pre @ ''AppID '' @ a @ mid @ num @ t" using assms by (simp add: speed_match_def)
  have "speed_match (''AppID '' @ a @ mid @ num @ t) [] a mid num t"
    using assms by (simp add: speed_match_def)
  then have "match_speed_here (''AppID '' @ a @ mid @ num @ t) \<noteq> None"
    by (rule match_speed_here_complete)
  then have "search_speed (''AppID '' @ a @ mid @ num @ t) \<noteq> None"
    by (rule search_speed_here)
  then show ?thesis unfolding l by (rule search_speed_append)
qed

lemma search_speed_best_match:
  assumes "best_match line pre a mid num t"
  shows "search_speed line = Some (a, num)"
proof -
  have "speed_match line pre a mid num t" using assms by (simp add: best_match_def)
  then have "search_speed line \<noteq> None" by (rule search_speed_match)
  then obtain a' num' where s: "search_speed line = Some (a', num')" by auto
  then obtain pre' mid' t' where "best_match line pre' a' mid' num' t'"
    using search_speed_best by blast
  then have "a' = a \<and> num' = num" using best_match_unique [OF assms] by blast
  then show ?thesis using s by simp
qed

lemma shape_a_speed_match:
  assumes "is_line line" "shape_a line a num"
  shows "\<exists>pre mid t. speed_match line pre a mid num t"
proof -
  obtain pre mid t where l: "line = pre @ ''AppID '' @ a @ mid @ num @ t"
      and a: "a \<noteq> []" "list_all is_digit a" and r: "is_numeral num" and t: "unit_tail t"
    using assms(2) unfolding shape_a_def by blast
  have "num @ t \<noteq> []" using unit_tail_nonempty [OF t] by simp
  then have "newline \<notin> set mid"
    using assms(1) l line_mid_free [of "pre @ ''AppID '' @ a" mid "num @ t"] by simp
  then show ?thesis using l a r t unfolding speed_match_def by blast
qed










text \<open>
  Claim C5. A line that contains an identifier token followed later by a number right
  before the throughput marker has a best match: the leftmost token, the longest
  identifier there that still leaves a number to read, the first number after it that
  stands before a marker. The parser returns exactly the identifier of the best match,
  the double that \<open>float\<close> reads from its number, and the status \<open>paused\<close> exactly
  when the line holds a pause or suspend keyword in any letter case. The best match is
  unique. The sample line of the specification gives identifier 123, speed 5.50 and
  status \<open>downloading\<close>.
\<close>

theorem parse_log_line_speed_shape:
  "(is_line line \<and> shape_a line a0 num0 \<longrightarrow> (\<exists>pre a mid num t. best_match line pre a mid num t))
   \<and> (best_match line pre a mid num t \<longrightarrow>
        parse_log_line line =
          Some (a, py_float num, if pause_word line then ''paused'' else ''downloading''))
   \<and> (best_match line pre a mid num t \<and> best_match line pre' a' mid' num' t' \<longrightarrow>
        a' = a \<and> num' = num)
   \<and> parse_log_line ''AppID 123 update, downloaded 10 MB at 5.50 MB/s''
        = Some (''123'', Finite 5.5, ''downloading'')"
proof (intro conjI impI)
  assume h: "is_line line \<and> shape_a line a0 num0"
  then obtain p m u where "speed_match line p a0 m num0 u"
    using shape_a_speed_match by blast
  then have "search_speed line \<noteq> None" by (rule search_speed_match)
  then obtain b r where "search_speed line = Some (b, r)" by auto
  then have "\<exists>pre mid t. best_match line pre b mid r t" by (rule search_speed_best)
  then show "\<exists>pre a mid num t. best_match line pre a mid num t" by blast
next
  assume "best_match line pre a mid num t"
  then have "search_speed line = Some (a, num)" by (rule search_speed_best_match)
  then show "parse_log_line line =
      Some (a, py_float num, if pause_word line then ''paused'' else ''downloading'')"
    by (simp add: parse_log_line_def has_pause_word_iff)
next
  assume b: "best_match line pre a mid num t \<and> best_match line pre' a' mid' num' t'"
  then have "pre' = pre \<and> a' = a \<and> mid' = mid \<and> num' = num \<and> t' = t"
    using best_match_unique by blast
  then show "a' = a" and "num' = num" by simp_all
next
  show "parse_log_line ''AppID 123 update, downloaded 10 MB at 5.50 MB/s''
        = Some (''123'', Finite 5.5, ''downloading'')"
    by code_simp
qed

lemma shape_a_example:
  "shape_a ''AppID 123 update, downloaded 10 MB at 5.50 MB/s'' ''123'' ''5.50''"
proof -
  have n: "is_numeral ''5.50''"
    unfolding is_numeral_def frac_part_def
    by (rule exI [of _ "''5''"], rule exI [of _ "''.50''"])
       (auto simp: is_digit_def intro: exI [of _ "''.''"])
  have t: "unit_tail '' MB/s''"
    unfolding unit_tail_def
    by (rule exI [of _ "'' ''"], rule exI [of _ "[]"]) (simp add: is_space_def)
  show ?thesis
    unfolding shape_a_def
    apply (rule exI [of _ "[]"])
    apply (rule exI [of _ "'' update, downloaded 10 MB at ''"])
    apply (rule exI [of _ "'' MB/s''"])
    using n t by (simp add: is_digit_def)
qed

theorem parse_log_line_speed_shape_witness:
  "is_line ''AppID 123 update, downloaded 10 MB at 5.50 MB/s''
   \<and> shape_a ''AppID 123 update, downloaded 10 MB at 5.50 MB/s'' ''123'' ''5.50''
   \<and> (\<exists>pre mid t. speed_match ''AppID 123 update, downloaded 10 MB at 5.50 MB/s''
          pre ''123'' mid ''5.50'' t)
   \<and> parse_log_line ''AppID 123 update, downloaded 10 MB at 5.50 MB/s''
       = Some (''123'', py_float ''5.50'',
           if pause_word ''AppID 123 update, downloaded 10 MB at 5.50 MB/s''
           then ''paused'' else ''downloading'')"
proof -
  let ?L = "''AppID 123 update, downloaded 10 MB at 5.50 MB/s''"
  have l: "is_line ?L" by (simp add: is_line_def newline_def)
  obtain pre a mid num t where b: "best_match ?L pre a mid num t"
    using l shape_a_example parse_log_line_speed_shape [of ?L "''123''" "''5.50''"] by blast
  have s: "search_speed ?L = Some (''123'', ''5.50'')" by code_simp
  have "search_speed ?L = Some (a, num)" using b by (rule search_speed_best_match)
  then have an: "a = ''123''" "num = ''5.50''" using s by simp_all
  have m: "speed_match ?L pre ''123'' mid ''5.50'' t"
    using b an unfolding best_match_def by simp
  have "parse_log_line ?L = Some (a, py_float num, if pause_word ?L then ''paused'' else ''downloading'')"
    using b parse_log_line_speed_shape [of ?L a0 num0 pre a mid num t] by blast
  then show ?thesis using l shape_a_example m an by blast
qed







text \<open>An identifier of several digits is read whole, in both shapes.\<close>

lemma parse_whole_identifier:
  "parse_log_line ''AppID 570 at 2 MB/s'' = Some (''570'', Finite 2, ''downloading'')
   \<and> parse_log_line ''AppID 570 suspended'' = Some (''570'', Finite 0, ''paused'')"
  by code_simp

section \<open>The log cursor\<close>

lemma readlines_Nil: "readlines [] = []"
  by (simp add: readlines_def)

lemma read_text_exists: "read_text fs p = Inr bytes \<Longrightarrow> path_exists fs p"
  by (auto simp: read_text_def path_exists_def split: option.splits node.splits content.splits)

lemma read_new_log_entries_readable:
  assumes "log_path m = Some lp" "lp \<noteq> []" "read_text fs lp = Inr bytes"
  shows "read_new_log_entries m fs =
           (readlines (drop (last_position m) bytes),
            m\<lparr>last_position := max (last_position m) (length bytes)\<rparr>)"
  using assms read_text_exists [OF assms(3)] by (simp add: read_new_log_entries_def)

lemma read_new_log_entries_cases:
  "read_new_log_entries m fs = ([], m) \<or>
   (\<exists>lp bytes. log_path m = Some lp \<and> lp \<noteq> [] \<and> read_text fs lp = Inr bytes \<and>
      read_new_log_entries m fs =
        (readlines (drop (last_position m) bytes),
         m\<lparr>last_position := max (last_position m) (length bytes)\<rparr>))"
  by (auto simp: read_new_log_entries_def split: option.splits sum.splits)

lemma read_new_log_entries_mono:
  "last_position m \<le> last_position (snd (read_new_log_entries m fs))"
  using read_new_log_entries_cases [of m fs] by auto

lemma read_new_log_entries_log_path:
  "log_path (snd (read_new_log_entries m fs)) = log_path m"
  using read_new_log_entries_cases [of m fs] by auto

lemma cursor_trace_sorted: "sorted (last_position m # cursor_trace m fss)"
proof (induction fss arbitrary: m)
  case Nil
  then show ?case by simp
next
  case (Cons fs fss)
  have "sorted (last_position (snd (read_new_log_entries m fs))
          # cursor_trace (snd (read_new_log_entries m fs)) fss)"
    by (rule Cons.IH)
  then have "sorted (last_position m # last_position (snd (read_new_log_entries m fs))
          # cursor_trace (snd (read_new_log_entries m fs)) fss)"
    using read_new_log_entries_mono [of m fs] by (simp only: sorted2 simp_thms)
  then show ?case by (simp only: cursor_trace.simps Let_def)
qed

text \<open>What the reader returns are lines, as the parser expects them.\<close>

lemma splitlines_lines: "l \<in> set (splitlines s) \<Longrightarrow> is_line l"
proof (induction s arbitrary: l)
  case Nil
  then show ?case by simp
next
  case (Cons c cs)
  show ?case
  proof (cases "c = newline")
    case True
    then have "l = [c] \<or> l \<in> set (splitlines cs)" using Cons.prems by simp
    then show ?thesis using Cons.IH by (auto simp: is_line_def)
  next
    case False
    show ?thesis
    proof (cases "splitlines cs")
      case Nil
      then have "l = [c]" using Cons.prems False by simp
      then show ?thesis by (simp add: is_line_def)
    next
      case (Cons k ks)
      then have "l = c # k \<or> l \<in> set ks" using Cons.prems False by simp
      moreover have "is_line k" using Cons Cons.IH by simp
      moreover have "l \<in> set ks \<Longrightarrow> is_line l" using Cons Cons.IH by simp
      ultimately show ?thesis using False by (auto simp: is_line_def split: if_splits)
    qed
  qed
qed

lemma read_new_log_entries_lines:
  "l \<in> set (fst (read_new_log_entries m fs)) \<Longrightarrow> is_line l"
  using read_new_log_entries_cases [of m fs] splitlines_lines
  by (auto simp: readlines_def)

text \<open>
  Claim C3, amended. Along every sequence of polls the cursor never decreases. A poll
  that reads a file at least as long as the cursor leaves the cursor at the file's
  length; a poll of a file shorter than the cursor leaves the cursor where it was.
\<close>

theorem log_cursor_monotone:
  "sorted (last_position m # cursor_trace m fss)
   \<and> (log_path m = Some lp \<and> lp \<noteq> [] \<and> read_text fs lp = Inr bytes
        \<and> last_position m \<le> length bytes
      \<longrightarrow> last_position (snd (read_new_log_entries m fs)) = length bytes)
   \<and> (log_path m = Some lp \<and> lp \<noteq> [] \<and> read_text fs lp = Inr bytes
        \<and> length bytes < last_position m
      \<longrightarrow> last_position (snd (read_new_log_entries m fs)) = last_position m)"
proof (intro conjI impI)
  show "sorted (last_position m # cursor_trace m fss)" by (rule cursor_trace_sorted)
next
  assume "log_path m = Some lp \<and> lp \<noteq> [] \<and> read_text fs lp = Inr bytes
        \<and> last_position m \<le> length bytes"
  then show "last_position (snd (read_new_log_entries m fs)) = length bytes"
    by (simp add: read_new_log_entries_readable)
next
  assume "log_path m = Some lp \<and> lp \<noteq> [] \<and> read_text fs lp = Inr bytes
        \<and> length bytes < last_position m"
  then show "last_position (snd (read_new_log_entries m fs)) = last_position m"
    by (simp add: read_new_log_entries_readable)
qed

lemma log_fs_read:
  "read_text (log_fs bytes) (path_join (path_join ''S'' ''logs'') ''content_log.txt'') = Inr bytes"
  by (simp add: log_fs_def read_text_def resolve_def split_path_def path_join_def
      is_sep_def backslash_def)

lemma init_monitor_log_path:
  "log_path (init_monitor (Some ''S'')) = Some (path_join (path_join ''S'' ''logs'') ''content_log.txt'')"
  by (simp add: init_monitor_def)

lemma log_path_nonempty: "path_join (path_join ''S'' ''logs'') ''content_log.txt'' \<noteq> []"
  by (simp add: path_join_def)

theorem log_cursor_monotone_witness:
  "last_position (init_monitor (Some ''S'')) \<le> length ''one''
   \<and> last_position (snd (read_new_log_entries (init_monitor (Some ''S'')) (log_fs ''one'')))
       = length ''one''
   \<and> length ''abc'' < last_position ((init_monitor (Some ''S''))\<lparr>last_position := 10\<rparr>)
   \<and> last_position (snd (read_new_log_entries
         ((init_monitor (Some ''S''))\<lparr>last_position := 10\<rparr>) (log_fs ''abc''))) = 10"
proof -
  have p0: "last_position (init_monitor (Some ''S'')) = 0"
    by (simp add: init_monitor_def)
  have lp: "log_path ((init_monitor (Some ''S''))\<lparr>last_position := 10\<rparr>)
      = Some (path_join (path_join ''S'' ''logs'') ''content_log.txt'')"
    by (simp add: init_monitor_def)
  show ?thesis
    using p0 lp init_monitor_log_path log_path_nonempty
      log_fs_read [of "''one''"] log_fs_read [of "''abc''"]
      log_cursor_monotone [of "init_monitor (Some ''S'')" "[]"
        "path_join (path_join ''S'' ''logs'') ''content_log.txt''" "log_fs ''one''" "''one''"]
      log_cursor_monotone [of "(init_monitor (Some ''S''))\<lparr>last_position := 10\<rparr>" "[]"
        "path_join (path_join ''S'' ''logs'') ''content_log.txt''" "log_fs ''abc''" "''abc''"]
    by simp
qed

text \<open>
  Claim C3 as it is written fails: after a ten-byte log has been read and then cut
  down to three bytes, the cursor is still 10 and exceeds the length of the file.
\<close>

theorem log_cursor_truncation_counterexample:
  "cursor_trace (init_monitor (Some ''S'')) [log_fs ''0123456789'', log_fs ''abc''] = [10, 10]
   \<and> read_text (log_fs ''abc'') (path_join (path_join ''S'' ''logs'') ''content_log.txt'')
       = Inr ''abc''
   \<and> length ''abc'' < (10::nat)"
  by code_simp

text \<open>
  Claim C4. Without a log path or without the file a poll returns no entries and the
  monitor is unchanged. A second poll of a log whose bytes are those of the first poll
  returns no entries, and so does a second poll of the same file system in general.
\<close>

theorem read_new_log_entries_empty_poll:
  "(log_path m = None \<or> (\<exists>lp. log_path m = Some lp \<and> \<not> path_exists fs lp)
      \<longrightarrow> read_new_log_entries m fs = ([], m))
   \<and> (log_path m = Some lp \<and> read_text fs lp = Inr bytes \<and> read_text fs' lp = Inr bytes
      \<longrightarrow> fst (read_new_log_entries (snd (read_new_log_entries m fs)) fs') = [])
   \<and> fst (read_new_log_entries (snd (read_new_log_entries m fs)) fs) = []"
proof (intro conjI impI)
  assume "log_path m = None \<or> (\<exists>lp. log_path m = Some lp \<and> \<not> path_exists fs lp)"
  then show "read_new_log_entries m fs = ([], m)"
    by (auto simp: read_new_log_entries_def)
next
  assume h: "log_path m = Some lp \<and> read_text fs lp = Inr bytes \<and> read_text fs' lp = Inr bytes"
  show "fst (read_new_log_entries (snd (read_new_log_entries m fs)) fs') = []"
  proof (cases "lp = []")
    case True
    then show ?thesis using h by (simp add: read_new_log_entries_def)
  next
    case False
    then have "read_new_log_entries m fs =
        (readlines (drop (last_position m) bytes),
         m\<lparr>last_position := max (last_position m) (length bytes)\<rparr>)"
      using h by (simp add: read_new_log_entries_readable)
    moreover have "read_new_log_entries (m\<lparr>last_position := max (last_position m) (length bytes)\<rparr>) fs'
        = (readlines (drop (max (last_position m) (length bytes)) bytes),
           m\<lparr>last_position := max (max (last_position m) (length bytes)) (length bytes)\<rparr>)"
      using h False
        read_new_log_entries_readable [of "m\<lparr>last_position := max (last_position m) (length bytes)\<rparr>" lp fs' bytes]
      by simp
    ultimately show ?thesis by (simp add: readlines_Nil)
  qed
next
  show "fst (read_new_log_entries (snd (read_new_log_entries m fs)) fs) = []"
  proof -
    consider (idle) "read_new_log_entries m fs = ([], m)"
      | (read) lp bytes where "log_path m = Some lp" "lp \<noteq> []" "read_text fs lp = Inr bytes"
        "read_new_log_entries m fs =
          (readlines (drop (last_position m) bytes),
           m\<lparr>last_position := max (last_position m) (length bytes)\<rparr>)"
      using read_new_log_entries_cases [of m fs] by blast
    then show ?thesis
    proof cases
      case idle
      then show ?thesis by simp
    next
      case read
      have "read_new_log_entries (m\<lparr>last_position := max (last_position m) (length bytes)\<rparr>) fs
        = (readlines (drop (max (last_position m) (length bytes)) bytes),
           m\<lparr>last_position := max (max (last_position m) (length bytes)) (length bytes)\<rparr>)"
        using read
          read_new_log_entries_readable [of "m\<lparr>last_position := max (last_position m) (length bytes)\<rparr>" lp fs bytes]
        by simp
      then show ?thesis using read(4) by (simp add: readlines_Nil)
    qed
  qed
qed

theorem read_new_log_entries_empty_poll_witness:
  "\<not> path_exists (Dir []) (path_join (path_join ''S'' ''logs'') ''content_log.txt'')
   \<and> read_new_log_entries (init_monitor (Some ''S'')) (Dir [])
       = ([], init_monitor (Some ''S''))
   \<and> fst (read_new_log_entries (init_monitor (Some ''S'')) (log_fs ''AppID 1 paused''))
       = [''AppID 1 paused'']
   \<and> fst (read_new_log_entries
         (snd (read_new_log_entries (init_monitor (Some ''S'')) (log_fs ''AppID 1 paused'')))
         (log_fs ''AppID 1 paused'')) = []"
proof -
  have a: "\<not> path_exists (Dir []) (path_join (path_join ''S'' ''logs'') ''content_log.txt'')"
    by code_simp
  have b: "fst (read_new_log_entries (init_monitor (Some ''S'')) (log_fs ''AppID 1 paused''))
       = [''AppID 1 paused'']"
    by code_simp
  show ?thesis
    using a b init_monitor_log_path log_fs_read [of "''AppID 1 paused''"]
      read_new_log_entries_empty_poll [of "init_monitor (Some ''S'')" "Dir []"
        "path_join (path_join ''S'' ''logs'') ''content_log.txt''" "''AppID 1 paused''"
        "Dir []"]
      read_new_log_entries_empty_poll [of "init_monitor (Some ''S'')" "log_fs ''AppID 1 paused''"
        "path_join (path_join ''S'' ''logs'') ''content_log.txt''" "''AppID 1 paused''"
        "log_fs ''AppID 1 paused''"]
    by simp
qed

section \<open>The size sampler and the activity classifier\<close>

lemma update_stats_list: "update_stats (PyList xs) a n t = Inl TypeError"
  by (simp add: update_stats_def)

lemma estimate_on_list:
  "download_stats m = PyList xs \<Longrightarrow> estimate_download_speed m fs a folder t = (0, m)"
  by (simp add: estimate_download_speed_def update_stats_list split: option.splits)

lemma update_stats_dict_rate:
  assumes "d a = Some (s0, t0)" "t0 < t"
  shows "update_stats (PyDict d) a n t =
           Inr (max 0 (real_of_int (n - s0) / (t - t0) / 1048576), PyDict (d(a \<mapsto> (n, t))))"
  using assms by (simp add: update_stats_def Let_def)

lemma staging_fs_resolve:
  "resolve (staging_fs n t) (path_join (path_join (path_join ''S'' ''steamapps'') ''downloading'') ''123'')
     = Some (Dir [(''chunk.bin'', File (Blob n) t)])"
  by (simp add: staging_fs_def resolve_def split_path_def path_join_def is_sep_def backslash_def)

lemma staging_fs_total_size:
  "total_size (Dir [(''chunk.bin'', File (Blob n) t)]) = int n"
  by (simp add: total_size_def is_dir_def node_exists_def getsize_def)

text \<open>
  Claim C1 against the code. The constructor stores a list, so the estimator of a fresh
  monitor returns 0 on every input. For samples of 100 MiB at 1000 s and 150 MiB at
  1010 s, with the staging directory readable, the second estimate is 0 and not 5.
\<close>

theorem estimate_download_speed_fresh_rate:
  "fst (estimate_download_speed (init_monitor_v2 found) fs a folder t) = 0
   \<and> resolve (staging_fs 157286400 0)
         (path_join (path_join (path_join ''S'' ''steamapps'') ''downloading'') ''123'')
       = Some (Dir [(''chunk.bin'', File (Blob 157286400) 0)])
   \<and> total_size (Dir [(''chunk.bin'', File (Blob 157286400) 0)]) = 157286400
   \<and> fst (estimate_download_speed
        (snd (estimate_download_speed (init_monitor_v2 (Some ''S'')) (staging_fs 104857600 0)
                ''123'' (path_join ''S'' ''steamapps'') 1000))
        (staging_fs 157286400 0) ''123'' (path_join ''S'' ''steamapps'') 1010) = 0"
proof -
  have i: "download_stats (init_monitor_v2 f) = PyList []" for f
    by (simp add: init_monitor_v2_def)
  have e: "estimate_download_speed (init_monitor_v2 f) g b fo u = (0, init_monitor_v2 f)"
    for f g b fo u
    using i by (rule estimate_on_list)
  show ?thesis
    by (simp add: e staging_fs_resolve staging_fs_total_size)
qed

text \<open>
  Claim C2 against the code. After a poll of a fresh monitor the statistics are still
  the empty list: no sample is stored, although the staging directory is readable.
\<close>

theorem estimate_download_speed_fresh_sample:
  "download_stats (snd (estimate_download_speed (init_monitor_v2 found) fs a folder t)) = PyList []
   \<and> resolve (staging_fs 104857600 0)
         (path_join (path_join (path_join ''S'' ''steamapps'') ''downloading'') ''123'')
       = Some (Dir [(''chunk.bin'', File (Blob 104857600) 0)])
   \<and> estimate_download_speed (init_monitor_v2 (Some ''S'')) (staging_fs 104857600 0)
        ''123'' (path_join ''S'' ''steamapps'') 1000 = (0, init_monitor_v2 (Some ''S''))"
proof -
  have i: "download_stats (init_monitor_v2 f) = PyList []" for f
    by (simp add: init_monitor_v2_def)
  have e: "estimate_download_speed (init_monitor_v2 f) g b fo u = (0, init_monitor_v2 f)"
    for f g b fo u
    using i by (rule estimate_on_list)
  show ?thesis
    by (simp add: e i staging_fs_resolve)
qed

text \<open>What the estimator does on a dictionary: the rate of the specification.\<close>

lemma estimate_on_dict_example:
  "fst (estimate_download_speed
     \<lparr>steam_path = Some ''S'', download_stats = PyDict (Map.empty(''123'' \<mapsto> (104857600, 1000)))\<rparr>
     (staging_fs 157286400 0) ''123'' (path_join ''S'' ''steamapps'') 1010) = 5"
  by (simp add: estimate_download_speed_def staging_fs_resolve staging_fs_total_size
      node_exists_def update_stats_def Let_def)




lemma status_download_entry:
  "status (fst (download_entry sp fs now m a)) =
     (if is_active fs (path_join (path_join (path_join sp ''steamapps'') ''downloading'') a) now
      then ''downloading'' else ''paused'')"
  by (simp add: download_entry_def Let_def split: prod.splits)

lemma speed_download_entry:
  "speed_mbps (fst (download_entry sp fs now m a)) =
     (if is_active fs (path_join (path_join (path_join sp ''steamapps'') ''downloading'') a) now
      then fst (estimate_download_speed m fs a (path_join sp ''steamapps'') now) else 0)"
  by (simp add: download_entry_def Let_def split: prod.splits)





section \<open>Status records, discovery and the monitor loops\<close>

lemma download_entry_paused_zero:
  assumes "status (fst (download_entry sp fs now m a)) = ''paused''"
  shows "speed_mbps (fst (download_entry sp fs now m a)) = 0"
proof -
  have "\<not> is_active fs (path_join (path_join (path_join sp ''steamapps'') ''downloading'') a) now"
    using assms by (auto simp: status_download_entry split: if_splits)
  then show ?thesis by (simp add: speed_download_entry)
qed

lemma download_entries_paused_zero:
  "d \<in> set (fst (download_entries sp fs now m as)) \<Longrightarrow> status d = ''paused''
     \<Longrightarrow> speed_mbps d = 0"
proof (induction as arbitrary: m)
  case Nil
  then show ?case by simp
next
  case (Cons a as)
  obtain e m' where e: "download_entry sp fs now m a = (e, m')"
    by (cases "download_entry sp fs now m a")
  obtain ds m'' where ds: "download_entries sp fs now m' as = (ds, m'')"
    by (cases "download_entries sp fs now m' as")
  have "d = e \<or> d \<in> set ds" using Cons.prems(1) e ds by simp
  then show ?case
  proof
    assume "d = e"
    then have "d = fst (download_entry sp fs now m a)" using e by simp
    then show ?thesis using Cons.prems(2) download_entry_paused_zero by metis
  next
    assume "d \<in> set ds"
    then have "d \<in> set (fst (download_entries sp fs now m' as))" using ds by simp
    then show ?thesis using Cons.IH Cons.prems(2) by blast
  qed
qed

text \<open>
  Claim C10. Every record of a poll of Strategy B whose status is \<open>paused\<close> has
  speed 0.
\<close>

theorem paused_speed_zero:
  "\<forall>d \<in> set (records_of (get_download_info m fs now)).
      status d = ''paused'' \<longrightarrow> speed_mbps d = 0"
proof (cases "get_download_info m fs now")
  case (Inl e)
  then show ?thesis by (simp add: records_of_def)
next
  case (Inr r)
  obtain ds m' where r: "r = (ds, m')" by (cases r)
  have "ds = [] \<or> (\<exists>sp apps. ds = fst (download_entries sp fs now m apps))"
    using Inr r
    by (auto simp: get_download_info_def split: option.splits if_splits sum.splits)
       (metis fst_conv)
  then show ?thesis
    using Inr r download_entries_paused_zero by (auto simp: records_of_def)
qed

text \<open>
  Claim C9. With no install root both monitor loops report the error and return at
  once, for every amount of fuel: the monitor is unchanged and the only event is the
  error report, so no check is made. A failed resolution leaves the constructors with
  no install root.
\<close>

theorem monitor_not_found:
  "(steam_path m = None \<longrightarrow>
      monitor fuel fs_at cost start_time duration_minutes interval_seconds m
        = Some (Inr (m, [Error_not_found])))
   \<and> (steam_path mv = None \<longrightarrow>
      monitor_v2 fuel fs_at cost start_time duration_minutes interval_seconds mv
        = Some (Inr (mv, [Error_not_found])))
   \<and> (find_steam_path fs probes = None \<longrightarrow>
        steam_path (init_monitor (find_steam_path fs probes)) = None
        \<and> steam_path (init_monitor_v2 (find_steam_path fs probes)) = None)"
proof (intro conjI impI)
  assume "steam_path m = None"
  then have "\<not> truthy (steam_path m)" by (simp add: truthy_def)
  then show "monitor fuel fs_at cost start_time duration_minutes interval_seconds m
        = Some (Inr (m, [Error_not_found]))"
    by (simp add: monitor_def)
next
  assume "steam_path mv = None"
  then have "\<not> truthy (steam_path mv)" by (simp add: truthy_def)
  then show "monitor_v2 fuel fs_at cost start_time duration_minutes interval_seconds mv
        = Some (Inr (mv, [Error_not_found]))"
    by (simp add: monitor_v2_def)
next
  assume f: "find_steam_path fs probes = None"
  show "steam_path (init_monitor (find_steam_path fs probes)) = None"
    unfolding f by (simp add: init_monitor_def)
  show "steam_path (init_monitor_v2 (find_steam_path fs probes)) = None"
    unfolding f by (simp add: init_monitor_v2_def)
qed

theorem monitor_not_found_witness:
  "steam_path (init_monitor (find_steam_path (Dir []) [None, Some ''S'', None])) = None
   \<and> monitor 0 (\<lambda>t. Dir []) 1 1000 5 60 (init_monitor (find_steam_path (Dir []) [None, Some ''S'', None]))
       = Some (Inr (init_monitor (find_steam_path (Dir []) [None, Some ''S'', None]),
                    [Error_not_found]))
   \<and> steam_path (init_monitor_v2 (find_steam_path (Dir []) [None, Some ''S'', None])) = None
   \<and> monitor_v2 0 (\<lambda>t. Dir []) 1 1000 5 60
         (init_monitor_v2 (find_steam_path (Dir []) [None, Some ''S'', None]))
       = Some (Inr (init_monitor_v2 (find_steam_path (Dir []) [None, Some ''S'', None]),
                    [Error_not_found]))"
proof -
  have f: "find_steam_path (Dir []) [None, Some ''S'', None] = None"
    by (simp add: path_exists_def resolve_def split_path_def is_sep_def backslash_def)
  have a: "steam_path (init_monitor None) = None" by (simp add: init_monitor_def)
  have b: "steam_path (init_monitor_v2 None) = None" by (simp add: init_monitor_v2_def)
  show ?thesis
    unfolding f
    using a b
      monitor_not_found [where m = "init_monitor None" and fuel = 0 and fs_at = "\<lambda>t. Dir []"
        and cost = 1 and start_time = 1000 and duration_minutes = 5 and interval_seconds = 60
        and mv = "init_monitor_v2 None" and fs = "Dir []" and probes = "[None, Some ''S'', None]"]
    by simp
qed

text \<open>
  The estimator had a positive rate for the identifier, the files are stale, and the
  records carry speed 0.
\<close>

theorem paused_speed_zero_witness:
  "0 < fst (estimate_download_speed
         \<lparr>steam_path = Some ''S'', download_stats = PyDict (Map.empty(''10'' \<mapsto> (3, 0)))\<rparr>
         two_library_fs ''10'' (path_join ''S'' ''steamapps'') 200)
   \<and> map status (records_of (get_download_info
         \<lparr>steam_path = Some ''S'', download_stats = PyDict (Map.empty(''10'' \<mapsto> (3, 0)))\<rparr>
         two_library_fs 200)) = [''paused'', ''paused'']
   \<and> map speed_mbps (records_of (get_download_info
         \<lparr>steam_path = Some ''S'', download_stats = PyDict (Map.empty(''10'' \<mapsto> (3, 0)))\<rparr>
         two_library_fs 200)) = [0, 0]"
proof -
  have a: "0 < fst (estimate_download_speed
         \<lparr>steam_path = Some ''S'', download_stats = PyDict (Map.empty(''10'' \<mapsto> (3, 0)))\<rparr>
         two_library_fs ''10'' (path_join ''S'' ''steamapps'') 200)"
    by code_simp
  have b: "map status (records_of (get_download_info
         \<lparr>steam_path = Some ''S'', download_stats = PyDict (Map.empty(''10'' \<mapsto> (3, 0)))\<rparr>
         two_library_fs 200)) = [''paused'', ''paused'']"
    by code_simp
  obtain d1 d2 where r: "records_of (get_download_info
         \<lparr>steam_path = Some ''S'', download_stats = PyDict (Map.empty(''10'' \<mapsto> (3, 0)))\<rparr>
         two_library_fs 200) = [d1, d2]" and s: "status d1 = ''paused''" "status d2 = ''paused''"
    using b by (auto simp: map_eq_Cons_conv)
  have "speed_mbps d1 = 0 \<and> speed_mbps d2 = 0"
    using r s
      paused_speed_zero [of "\<lparr>steam_path = Some ''S'',
        download_stats = PyDict (Map.empty(''10'' \<mapsto> (3, 0)))\<rparr>" two_library_fs 200]
    by simp
  then show ?thesis using a b r by simp
qed

text \<open>
  The identifiers discovered are the candidates of the entries of the existing library
  folders; how often each occurs is another matter.
\<close>

lemma set_scan_file:
  "set (scan_file fs folder acc file) = set acc \<union> {a. candidate fs folder file a}"
proof (cases "prefix ''appmanifest_'' file \<and> suffix ''.acf'' file")
  case False
  then show ?thesis by (auto simp: scan_file_def candidate_def)
next
  case True
  define a where "a = remove_all ''.acf'' (remove_all ''appmanifest_'' file)"
  define st where "st = path_exists fs (path_join (path_join folder ''downloading'') a)"
  define fl where "fl = (\<exists>content flags. read_text fs (path_join folder file) = Inr content
                 \<and> sublist ''StateFlags'' content
                 \<and> kv_search ''StateFlags'' is_digit content = Some flags
                 \<and> flags \<in> {''2'', ''4'', ''6''})"
  have c: "{b. candidate fs folder file b} = (if st \<or> fl then {a} else {})"
    using True unfolding candidate_def a_def st_def fl_def by auto
  have "set (scan_file fs folder acc file) = set acc \<union> (if st \<or> fl then {a} else {})"
    using True unfolding scan_file_def a_def [symmetric] Let_def st_def [symmetric]
    by (auto simp: fl_def split: sum.splits option.splits)
  then show ?thesis using c by simp
qed

lemma set_foldl_scan_file:
  "set (foldl (scan_file fs folder) acc files)
     = set acc \<union> {a. \<exists>file \<in> set files. candidate fs folder file a}"
proof (induction files arbitrary: acc)
  case Nil
  then show ?case by simp
next
  case (Cons f files)
  show ?case
    unfolding foldl_Cons Cons.IH set_scan_file by auto
qed

lemma set_scan_folders:
  "scan_folders fs acc folders = Inr r \<Longrightarrow>
     set r = set acc \<union>
       {a. \<exists>folder \<in> set folders. path_exists fs folder \<and>
             (\<exists>files. listdir fs folder = Inr files \<and>
                (\<exists>file \<in> set files. candidate fs folder file a))}"
proof (induction folders arbitrary: acc)
  case Nil
  then show ?case by simp
next
  case (Cons folder folders)
  show ?case
  proof (cases "path_exists fs folder")
    case False
    then have "scan_folders fs acc folders = Inr r" using Cons.prems by simp
    then show ?thesis using Cons.IH False by auto
  next
    case True
    then obtain files where l: "listdir fs folder = Inr files"
      and s: "scan_folders fs (foldl (scan_file fs folder) acc files) folders = Inr r"
      using Cons.prems by (auto split: sum.splits)
    have "set r = set (foldl (scan_file fs folder) acc files) \<union>
       {a. \<exists>folder \<in> set folders. path_exists fs folder \<and>
             (\<exists>files. listdir fs folder = Inr files \<and>
                (\<exists>file \<in> set files. candidate fs folder file a))}"
      using s by (rule Cons.IH)
    then show ?thesis
      unfolding set_foldl_scan_file using True l by auto
  qed
qed

lemma discovered_set:
  assumes "steam_path m = Some sp" "sp \<noteq> []" "get_downloading_apps m fs = Inr r"
  shows "a \<in> set r \<longleftrightarrow>
           (\<exists>folder \<in> set (library_folders sp fs). path_exists fs folder \<and>
              (\<exists>files. listdir fs folder = Inr files \<and>
                 (\<exists>file \<in> set files. candidate fs folder file a)))"
proof -
  have "scan_folders fs [] (library_folders sp fs) = Inr r"
    using assms by (simp add: get_downloading_apps_def)
  then show ?thesis using set_scan_folders by fastforce
qed

text \<open>
  Claim C8 against the code. With two library roots that both hold the manifest and a
  staging directory of identifier 10, the identifier is returned twice: the branch for
  the staging directory appends without looking at the list.
\<close>

theorem get_downloading_apps_duplicate:
  "get_downloading_apps (init_monitor_v2 (Some ''S'')) two_library_fs = Inr [''10'', ''10'']
   \<and> library_folders ''S'' two_library_fs
       = [path_join ''S'' ''steamapps'', path_join ''L'' ''steamapps'']
   \<and> \<not> distinct [''10'', ''10'']"
  by code_simp

text \<open>A found install root does poll: one check of an empty log, then the deadline.\<close>

lemma monitor_found_polls:
  "monitor 5 (\<lambda>t. log_fs []) 1 1000 1 90 (init_monitor (Some ''S''))
     = Some (Inr (init_monitor (Some ''S''),
          [Banner, Poll 1 (None, None), Sleep 59, Finished]))"
  by (simp add: eval_nat_numeral monitor_def truthy_def init_monitor_def get_current_download_status_def
      read_new_log_entries_def path_exists_def read_text_def resolve_def split_path_def
      path_join_def is_sep_def backslash_def log_fs_def readlines_def Let_def)

end
